theory Spec2Isabelle
  imports Main "HOL-Library.Word" "HOL-Library.Signed_Division" "HOL-Library.Sublist"
begin

section \<open>The MPT benchmark harness (cmd/mpt\_bench)\<close>

text \<open>
  The program is a single \<^verbatim>\<open>main\<close> function: it opens a store, creates \<open>n\<close> accounts
  with a variable number of storage slots (phase 1), modifies 500 slots in \<open>m\<close> randomly
  chosen accounts (phase 2) and commits every \<open>k\<close> accounts. Two versions of the file are
  modelled: \<^verbatim>\<open>cmd/mpt_bench/main.go\<close> (Pebble backend) and the LevelDB version of the same
  program. They differ in the backend that is opened, in the textual label hashed into a
  storage-slot key, and in two counters that the Pebble version keeps for its throughput
  lines.

  The collaborators of \<^verbatim>\<open>main\<close> are outside the program: the hash and the byte
  conversions (\<^verbatim>\<open>crypto.Keccak256\<close>, \<^verbatim>\<open>common.BytesToAddress\<close>, \<^verbatim>\<open>common.BytesToHash\<close>),
  the pseudo-random source (\<^verbatim>\<open>math/rand\<close>) and the state store (\<^verbatim>\<open>state.StateDB\<close>,
  \<^verbatim>\<open>triedb.Database\<close>). They are parameters of the model. Every call that \<^verbatim>\<open>main\<close> makes
  to the store and every line it prints is appended to a trace, in program order.
  Elapsed times, memory statistics and disk sizes are floating-point figures inside the
  printed lines; the lines are kept, the figures are not.
\<close>

subsection \<open>Data\<close>

type_synonym byte = "8 word"
type_synonym bytes = "byte list"

datatype backend = Pebble | LevelDB

text \<open>The command-line flags, with Go's \<^verbatim>\<open>int\<close> as \<open>int\<close>.\<close>

record flags =
  nAccounts :: int
  nSlots :: int
  mModify :: int
  kCommit :: int
  dbPath :: string
  clearDB :: bool

text \<open>The lines printed by \<^verbatim>\<open>main\<close>, one constructor for each \<^verbatim>\<open>Printf\<close>.\<close>

datatype msg =
    MsgCleaning string
  | MsgInitDB string
  | MsgOpenFailed string
  | MsgInitTrie
  | MsgPhase1 int int int
  | MsgProcessed int int
  | MsgCommitFailed string
  | MsgTrieCommitFailed string
  | MsgBatch int bytes
  | MsgCreationFinished bytes
  | MsgTotalCreated int
  | MsgPhase2 int int
  | MsgModified int int
  | MsgModCommitFailed string
  | MsgModTrieCommitFailed string
  | MsgModBatch
  | MsgModFinished bytes
  | MsgTotalModified int
  | MsgFinalReport string

text \<open>
  The calls to the outside, with the answer of the store where it has one:
  \<open>StateCommit rev res\<close> is \<^verbatim>\<open>statedb.Commit(rev, false, false)\<close> answering an error
  (\<open>Inl\<close>) or a root (\<open>Inr\<close>); \<open>TrieCommit root err\<close> is \<^verbatim>\<open>trieDB.Commit(root, false)\<close>.
\<close>

datatype event =
    RemoveAll string
  | SetBalance bytes int
  | SetNonce bytes int
  | SetState bytes bytes bytes
  | StateCommit int "string + bytes"
  | TrieCommit bytes "string option"
  | StateNew bytes
  | Print msg
  | CloseDB

text \<open>How \<^verbatim>\<open>main\<close> stops early: by \<^verbatim>\<open>return\<close> after an error, or by a run-time panic.\<close>

datatype fault = Returned | Panicked string

subsection \<open>The collaborators\<close>

text \<open>
  The library functions used by the generators. \<open>Intn\<close> is only ever applied to a
  positive bound: the panic of \<^verbatim>\<open>rand.Intn\<close> on a bound \<open>\<le> 0\<close> is part of the model
  (\<open>rand_Intn\<close> below).
\<close>

record 'r lib =
  Keccak256 :: "string \<Rightarrow> bytes"
  BytesToAddress :: "bytes \<Rightarrow> bytes"
  BytesToHash :: "bytes \<Rightarrow> bytes"
  NewRand :: "int \<Rightarrow> 'r"
  Intn :: "'r \<Rightarrow> int \<Rightarrow> int \<times> 'r"
  Read :: "'r \<Rightarrow> nat \<Rightarrow> bytes \<times> 'r"
  Perm :: "'r \<Rightarrow> int \<Rightarrow> int list \<times> 'r"

text \<open>
  The state store: the key-value database, the trie database and the current state
  view, as one value of type \<open>'s\<close>.
\<close>

record 's store =
  OpenStore :: "string \<Rightarrow> string + 's"
  StateDB_SetBalance :: "'s \<Rightarrow> bytes \<Rightarrow> int \<Rightarrow> 's"
  StateDB_SetNonce :: "'s \<Rightarrow> bytes \<Rightarrow> int \<Rightarrow> 's"
  StateDB_SetState :: "'s \<Rightarrow> bytes \<Rightarrow> bytes \<Rightarrow> bytes \<Rightarrow> 's"
  StateDB_Commit :: "'s \<Rightarrow> int \<Rightarrow> (string + bytes) \<times> 's"
  TrieDB_Commit :: "'s \<Rightarrow> bytes \<Rightarrow> string option \<times> 's"
  State_New :: "'s \<Rightarrow> bytes \<Rightarrow> 's"

subsection \<open>The variables of \<^verbatim>\<open>main\<close>\<close>

text \<open>
  \<open>rnd\<close> is the live random source: \<^verbatim>\<open>r\<close> in phase 1, \<^verbatim>\<open>rMod\<close> in phase 2 (\<^verbatim>\<open>r\<close> is dead
  by then). \<open>totalSlots\<close> is \<^verbatim>\<open>totalSlotsCreated\<close> in phase 1 and \<^verbatim>\<open>totalSlotsModified\<close> in
  phase 2. \<open>out\<close> is the trace.
\<close>

record ('r, 's) vars =
  statedb :: 's
  addrs :: "bytes list"
  currentRoot :: bytes
  rnd :: 'r
  totalSlots :: int
  out :: "event list"

type_synonym ('r, 's) step = "(fault \<times> ('r, 's) vars) + ('r, 's) vars"

definition emit :: "event \<Rightarrow> ('r, 's) vars \<Rightarrow> ('r, 's) vars" where
  "emit e st = st\<lparr>out := out st @ [e]\<rparr>"

subsection \<open>Go arithmetic and formatting\<close>

text \<open>\<^verbatim>\<open>uint64(x)\<close> of an \<^verbatim>\<open>int\<close>, and the product of two \<^verbatim>\<open>int\<close>s, which wraps at 64 bits.\<close>

definition uint64 :: "int \<Rightarrow> int" where
  "uint64 x = x mod 2 ^ 64"

definition wrap_int64 :: "int \<Rightarrow> int" where
  "wrap_int64 x = (x + 2 ^ 63) mod 2 ^ 64 - 2 ^ 63"

text \<open>\<^verbatim>\<open>%d\<close> of \<^verbatim>\<open>fmt.Sprintf\<close>.\<close>

definition digit :: "nat \<Rightarrow> char" where
  "digit d = char_of (48 + d)"

function itoa :: "nat \<Rightarrow> string" where
  "itoa n = (if n < 10 then [digit n] else itoa (n div 10) @ [digit (n mod 10)])"
  by pat_completeness auto
termination
  by (relation "measure id") auto

definition fmt_d :: "int \<Rightarrow> string" where
  "fmt_d x = (if x < 0 then CHR ''-'' # itoa (nat (- x)) else itoa (nat x))"

subsection \<open>Loops\<close>

text \<open>
  \<^verbatim>\<open>for i := lo; i < hi; i++ { body }\<close>, where the body may stop the whole function.
\<close>

function for_loop :: "nat \<Rightarrow> nat \<Rightarrow> (nat \<Rightarrow> 'a \<Rightarrow> 'e + 'a) \<Rightarrow> 'a \<Rightarrow> 'e + 'a" where
  "for_loop i hi body s =
     (if i < hi then
        (case body i s of
           Inl e \<Rightarrow> Inl e
         | Inr s' \<Rightarrow> for_loop (Suc i) hi body s')
      else Inr s)"
  by pat_completeness auto
termination
  by (relation "measure (\<lambda>(i, hi, body, s). hi - i)") auto

declare for_loop.simps [simp del]

subsection \<open>Keys and values\<close>

text \<open>The zero value of \<^verbatim>\<open>common.Hash\<close> and of \<^verbatim>\<open>common.Address\<close>.\<close>

definition zeroHash :: bytes where
  "zeroHash = replicate 32 0"

definition zeroAddress :: bytes where
  "zeroAddress = replicate 20 0"

definition account_label :: "int \<Rightarrow> string" where
  "account_label i = ''account-'' @ fmt_d i"

definition account_addr :: "'r lib \<Rightarrow> int \<Rightarrow> bytes" where
  "account_addr L i = BytesToAddress L (take 20 (Keccak256 L (account_label i)))"

text \<open>
  The label of a slot key: \<^verbatim>\<open>"acc-%d-slot-%d"\<close> in \<^verbatim>\<open>cmd/mpt_bench/main.go\<close>,
  \<^verbatim>\<open>"account-%d-slot-%d"\<close> in the LevelDB version.
\<close>

definition slot_label :: "backend \<Rightarrow> int \<Rightarrow> int \<Rightarrow> string" where
  "slot_label v i j =
     (case v of
        Pebble \<Rightarrow> ''acc-'' @ fmt_d i @ ''-slot-'' @ fmt_d j
      | LevelDB \<Rightarrow> ''account-'' @ fmt_d i @ ''-slot-'' @ fmt_d j)"

definition slot_key :: "'r lib \<Rightarrow> backend \<Rightarrow> int \<Rightarrow> int \<Rightarrow> bytes" where
  "slot_key L v i j = BytesToHash L (Keccak256 L (slot_label v i j))"

text \<open>\<^verbatim>\<open>r.Intn(n)\<close>: panics when \<open>n \<le> 0\<close>.\<close>

definition rand_Intn :: "'r lib \<Rightarrow> 'r \<Rightarrow> int \<Rightarrow> fault + (int \<times> 'r)" where
  "rand_Intn L r n =
     (if n \<le> 0 then Inl (Panicked ''invalid argument to Intn'') else Inr (Intn L r n))"

text \<open>The counters exist in the Pebble version only.\<close>

definition count_slot :: "backend \<Rightarrow> ('r, 's) vars \<Rightarrow> ('r, 's) vars" where
  "count_slot v st = (case v of Pebble \<Rightarrow> st\<lparr>totalSlots := totalSlots st + 1\<rparr> | LevelDB \<Rightarrow> st)"

definition do_SetState ::
  "'s store \<Rightarrow> bytes \<Rightarrow> bytes \<Rightarrow> bytes \<Rightarrow> ('r, 's) vars \<Rightarrow> ('r, 's) vars" where
  "do_SetState S addr key val st =
     emit (SetState addr key val) (st\<lparr>statedb := StateDB_SetState S (statedb st) addr key val\<rparr>)"

subsection \<open>Phase 1: creation\<close>

text \<open>The body of the loop over \<open>j\<close>: one slot of account \<open>i\<close>.\<close>

definition create_slot ::
  "'r lib \<Rightarrow> 's store \<Rightarrow> backend \<Rightarrow> int \<Rightarrow> bytes \<Rightarrow> nat \<Rightarrow> ('r, 's) vars \<Rightarrow> ('r, 's) step" where
  "create_slot L S v i addr j st0 =
     (let st = count_slot v st0;
          slotKey = slot_key L v i (int j)
      in case rand_Intn L (rnd st) 100 of
           Inl p \<Rightarrow> Inl (p, st)
         | Inr (dice, r1) \<Rightarrow>
             let (slotVal, r2) =
                   (if dice < 20 then (zeroHash, r1)
                    else if dice < 30 then (zeroHash[31 := 1], r1)
                    else Read L r1 32)
             in Inr (do_SetState S addr slotKey slotVal (st\<lparr>rnd := r2\<rparr>)))"

text \<open>
  The commit at a batch boundary. The two phases have the same block, with their
  own revision number, error lines and batch line.
\<close>

definition commit_batch ::
  "'s store \<Rightarrow> int \<Rightarrow> (string \<Rightarrow> msg) \<Rightarrow> (string \<Rightarrow> msg) \<Rightarrow> (bytes \<Rightarrow> msg) \<Rightarrow>
     ('r, 's) vars \<Rightarrow> ('r, 's) step" where
  "commit_batch S revision failed trieFailed report st0 =
     (let (res, s1) = StateDB_Commit S (statedb st0) revision;
          st1 = emit (StateCommit revision res) (st0\<lparr>statedb := s1\<rparr>)
      in case res of
           Inl err \<Rightarrow> Inl (Returned, emit (Print (failed err)) st1)
         | Inr root \<Rightarrow>
             let (err, s2) = TrieDB_Commit S (statedb st1) root;
                 st2 = emit (TrieCommit root err) (st1\<lparr>statedb := s2\<rparr>)
             in case err of
                  Some e \<Rightarrow> Inl (Returned, emit (Print (trieFailed e)) st2)
                | None \<Rightarrow>
                    let st3 = emit (Print (report root)) (st2\<lparr>currentRoot := root\<rparr>)
                    in Inr (emit (StateNew root)
                              (st3\<lparr>statedb := State_New S (statedb st3) root\<rparr>)))"

text \<open>
  The test \<^verbatim>\<open>(i+1)%batchSize == 0 || i+1 == n\<close>. Go's \<^verbatim>\<open>%\<close> truncates (\<open>smod\<close>) and
  panics on a zero divisor; \<open>None\<close> is that panic.
\<close>

definition at_boundary :: "int \<Rightarrow> int \<Rightarrow> int \<Rightarrow> bool option" where
  "at_boundary i batchSize n =
     (if batchSize = 0 then None
      else Some ((i + 1) smod batchSize = 0 \<or> i + 1 = n))"

definition revision1 :: "int \<Rightarrow> int \<Rightarrow> int" where
  "revision1 i batchSize = uint64 (i sdiv batchSize)"

definition revision2 :: "int \<Rightarrow> int \<Rightarrow> int" where
  "revision2 i batchSize = uint64 (uint64 (i sdiv batchSize) + 1000000)"

text \<open>The body of the loop over \<open>i\<close>: one account.\<close>

definition create_account ::
  "'r lib \<Rightarrow> 's store \<Rightarrow> backend \<Rightarrow> flags \<Rightarrow> nat \<Rightarrow> ('r, 's) vars \<Rightarrow> ('r, 's) step" where
  "create_account L S v fl i st0 =
     (let addr = account_addr L (int i);
          st1 = st0\<lparr>addrs := (addrs st0)[i := addr]\<rparr>;
          st2 = emit (SetBalance addr (10 ^ 18))
                  (st1\<lparr>statedb := StateDB_SetBalance S (statedb st1) addr (10 ^ 18)\<rparr>);
          st3 = emit (SetNonce addr (uint64 (int i)))
                  (st2\<lparr>statedb := StateDB_SetNonce S (statedb st2) addr (uint64 (int i))\<rparr>)
      in case rand_Intn L (rnd st3) (wrap_int64 (nSlots fl * 2)) of
           Inl p \<Rightarrow> Inl (p, st3)
         | Inr (vSlots, r1) \<Rightarrow>
            (case for_loop 0 (nat vSlots) (create_slot L S v (int i) addr) (st3\<lparr>rnd := r1\<rparr>) of
               Inl e \<Rightarrow> Inl e
             | Inr st4 \<Rightarrow>
                 let st5 = (if (int i + 1) smod 10 = 0 \<or> int i + 1 = nAccounts fl
                            then emit (Print (MsgProcessed (int i + 1) (nAccounts fl))) st4
                            else st4)
                 in case at_boundary (int i) (kCommit fl) (nAccounts fl) of
                      None \<Rightarrow> Inl (Panicked ''integer divide by zero'', st5)
                    | Some False \<Rightarrow> Inr st5
                    | Some True \<Rightarrow>
                        commit_batch S (revision1 (int i) (kCommit fl))
                          MsgCommitFailed MsgTrieCommitFailed
                          (MsgBatch (int i sdiv kCommit fl + 1)) st5))"

definition phase1 ::
  "'r lib \<Rightarrow> 's store \<Rightarrow> backend \<Rightarrow> flags \<Rightarrow> ('r, 's) vars \<Rightarrow> ('r, 's) step" where
  "phase1 L S v fl st0 =
     (let st1 = emit (Print (MsgPhase1 (nAccounts fl) (nSlots fl) (kCommit fl))) st0
      in if nAccounts fl < 0 then Inl (Panicked ''makeslice: len out of range'', st1)
         else
           let st2 = st1\<lparr>addrs := replicate (nat (nAccounts fl)) zeroAddress,
                         rnd := NewRand L 42, totalSlots := 0\<rparr>
           in case for_loop 0 (nat (nAccounts fl)) (create_account L S v fl) st2 of
                Inl e \<Rightarrow> Inl e
              | Inr st3 \<Rightarrow>
                  let st4 = emit (Print (MsgCreationFinished (currentRoot st3))) st3
                  in Inr (case v of
                            Pebble \<Rightarrow> emit (Print (MsgTotalCreated (totalSlots st4))) st4
                          | LevelDB \<Rightarrow> st4))"

subsection \<open>Phase 2: modification\<close>

definition slotsToModifyPerAccount :: nat where
  "slotsToModifyPerAccount = 500"

text \<open>The body of the loop over \<open>j\<close>: one modified slot of account \<open>accountIdx\<close>.\<close>

definition modify_slot ::
  "'r lib \<Rightarrow> 's store \<Rightarrow> backend \<Rightarrow> flags \<Rightarrow> int \<Rightarrow> bytes \<Rightarrow> nat \<Rightarrow>
     ('r, 's) vars \<Rightarrow> ('r, 's) step" where
  "modify_slot L S v fl accountIdx addr j st0 =
     (let st = count_slot v st0
      in case rand_Intn L (rnd st) (nSlots fl) of
           Inl p \<Rightarrow> Inl (p, st)
         | Inr (slotIdx, r1) \<Rightarrow>
             let slotKey = slot_key L v accountIdx slotIdx;
                 (newVal, r2) = Read L r1 32
             in Inr (do_SetState S addr slotKey newVal (st\<lparr>rnd := r2\<rparr>)))"

text \<open>
  The body of the loop over \<open>i\<close>. \<open>m\<close> is \<^verbatim>\<open>*mModify\<close> after the clamp. Indexing
  \<^verbatim>\<open>perm\<close> or \<^verbatim>\<open>addrs\<close> out of range panics.
\<close>

definition modify_account ::
  "'r lib \<Rightarrow> 's store \<Rightarrow> backend \<Rightarrow> flags \<Rightarrow> int \<Rightarrow> int list \<Rightarrow> nat \<Rightarrow>
     ('r, 's) vars \<Rightarrow> ('r, 's) step" where
  "modify_account L S v fl m perm i st0 =
     (if \<not> i < length perm then Inl (Panicked ''index out of range'', st0)
      else
        let accountIdx = perm ! i
        in if accountIdx < 0 \<or> \<not> nat accountIdx < length (addrs st0)
           then Inl (Panicked ''index out of range'', st0)
           else
             let addr = addrs st0 ! nat accountIdx
             in case for_loop 0 slotsToModifyPerAccount
                       (modify_slot L S v fl accountIdx addr) st0 of
                  Inl e \<Rightarrow> Inl e
                | Inr st1 \<Rightarrow>
                    let st2 = (if (int i + 1) smod 10 = 0 \<or> int i + 1 = m
                               then emit (Print (MsgModified (int i + 1) m)) st1
                               else st1)
                    in case at_boundary (int i) (kCommit fl) m of
                         None \<Rightarrow> Inl (Panicked ''integer divide by zero'', st2)
                       | Some False \<Rightarrow> Inr st2
                       | Some True \<Rightarrow>
                           commit_batch S (revision2 (int i) (kCommit fl))
                             MsgModCommitFailed MsgModTrieCommitFailed
                             (\<lambda>_. MsgModBatch) st2)"

definition clamp_modify :: "flags \<Rightarrow> int" where
  "clamp_modify fl = (if mModify fl > nAccounts fl then nAccounts fl else mModify fl)"

text \<open>\<open>now\<close> is \<^verbatim>\<open>time.Now().UnixNano()\<close>, the seed of \<^verbatim>\<open>rMod\<close>.\<close>

definition phase2 ::
  "'r lib \<Rightarrow> 's store \<Rightarrow> backend \<Rightarrow> flags \<Rightarrow> int \<Rightarrow> ('r, 's) vars \<Rightarrow> ('r, 's) step" where
  "phase2 L S v fl now st0 =
     (let m = clamp_modify fl;
          st1 = emit (Print (MsgPhase2 m (kCommit fl))) st0;
          (perm, r1) = Perm L (NewRand L now) (nAccounts fl);
          st2 = st1\<lparr>rnd := r1, totalSlots := 0\<rparr>
      in case for_loop 0 (nat m) (modify_account L S v fl m perm) st2 of
           Inl e \<Rightarrow> Inl e
         | Inr st3 \<Rightarrow>
             let st4 = emit (Print (MsgModFinished (currentRoot st3))) st3
             in Inr (case v of
                       Pebble \<Rightarrow> emit (Print (MsgTotalModified (totalSlots st4))) st4
                     | LevelDB \<Rightarrow> st4))"

subsection \<open>The program\<close>

text \<open>
  What a run leaves behind: how it stopped (\<open>None\<close>: it reached the end of \<^verbatim>\<open>main\<close>), the
  trace, and \<^verbatim>\<open>currentRoot\<close> at that moment.
\<close>

record run =
  stopped :: "fault option"
  trace :: "event list"
  head_root :: bytes

definition finish :: "fault option \<Rightarrow> ('r, 's) vars \<Rightarrow> run" where
  "finish f st = \<lparr>stopped = f, trace = out st @ [CloseDB], head_root = currentRoot st\<rparr>"

definition main :: "'r lib \<Rightarrow> 's store \<Rightarrow> backend \<Rightarrow> flags \<Rightarrow> int \<Rightarrow> run" where
  "main L S v fl now =
     (let t0 = (if clearDB fl
                then [Print (MsgCleaning (dbPath fl)), RemoveAll (dbPath fl)] else []);
          t1 = t0 @ [Print (MsgInitDB (dbPath fl))]
      in case OpenStore S (dbPath fl) of
           Inl err \<Rightarrow>
             \<lparr>stopped = Some Returned, trace = t1 @ [Print (MsgOpenFailed err)],
              head_root = zeroHash\<rparr>
         | Inr s0 \<Rightarrow>
             let st0 = \<lparr>statedb = s0, addrs = [], currentRoot = zeroHash,
                        rnd = NewRand L 42, totalSlots = 0, out = t1 @ [Print MsgInitTrie]\<rparr>
             in case phase1 L S v fl st0 of
                  Inl (f, st) \<Rightarrow> finish (Some f) st
                | Inr st1 \<Rightarrow>
                   (case phase2 L S v fl now st1 of
                      Inl (f, st) \<Rightarrow> finish (Some f) st
                    | Inr st2 \<Rightarrow>
                        finish None (emit (Print (MsgFinalReport (dbPath fl))) st2)))"

subsection \<open>Reading a trace\<close>

text \<open>The events that a state has added to the trace of an earlier state.\<close>

definition events_since :: "('r, 's) vars \<Rightarrow> ('r, 's) vars \<Rightarrow> event list" where
  "events_since st st' = drop (length (out st)) (out st')"

fun is_SetNonce :: "event \<Rightarrow> bool" where
  "is_SetNonce (SetNonce a n) = True"
| "is_SetNonce e = False"

fun is_SetState :: "event \<Rightarrow> bool" where
  "is_SetState (SetState a k x) = True"
| "is_SetState e = False"

fun is_mutation :: "event \<Rightarrow> bool" where
  "is_mutation (SetBalance a b) = True"
| "is_mutation (SetNonce a n) = True"
| "is_mutation (SetState a k x) = True"
| "is_mutation e = False"

text \<open>
  The commits of a trace, each with the number of units seen before it and its revision
  number. A unit is an event chosen by \<open>unit\<close>: the \<^verbatim>\<open>SetNonce\<close> of an account in phase 1
  (one for each account), a \<^verbatim>\<open>SetState\<close> in phase 2 (500 for each account).
\<close>

fun commits_after :: "(event \<Rightarrow> bool) \<Rightarrow> nat \<Rightarrow> event list \<Rightarrow> (nat \<times> int) list" where
  "commits_after unit c [] = []"
| "commits_after unit c (StateCommit revision res # es) =
     (c, revision) # commits_after unit c es"
| "commits_after unit c (e # es) = commits_after unit (if unit e then Suc c else c) es"

text \<open>The revision numbers passed to \<^verbatim>\<open>statedb.Commit\<close>, in order.\<close>

fun commit_revisions :: "event list \<Rightarrow> int list" where
  "commit_revisions [] = []"
| "commit_revisions (StateCommit revision res # es) = revision # commit_revisions es"
| "commit_revisions (e # es) = commit_revisions es"

subsection \<open>Collaborators for running the model\<close>

text \<open>
  A small random source, hash and store on which the model can be run: the hash is the
  bytes of the label itself, the random source is a counter, and the store numbers its
  commits and fails at commit number \<open>failAt\<close> (never when \<open>failAt = 0\<close>).
\<close>

definition test_lib :: "nat lib" where
  "test_lib =
     \<lparr>Keccak256 = map (\<lambda>c. of_nat (of_char c)),
      BytesToAddress = (\<lambda>b. b),
      BytesToHash = (\<lambda>b. b),
      NewRand = (\<lambda>seed. nat seed),
      Intn = (\<lambda>r n. (int r mod n, Suc r)),
      Read = (\<lambda>r k. (replicate k (of_nat r), Suc r)),
      Perm = (\<lambda>r n. (map int (rev [0..<nat n]), Suc r))\<rparr>"

definition test_root :: "nat \<Rightarrow> bytes" where
  "test_root c = replicate 31 0 @ [of_nat c]"

definition test_store :: "nat \<Rightarrow> nat store" where
  "test_store failAt =
     \<lparr>OpenStore = (\<lambda>p. Inr 0),
      StateDB_SetBalance = (\<lambda>s a b. s),
      StateDB_SetNonce = (\<lambda>s a n. s),
      StateDB_SetState = (\<lambda>s a k x. s),
      StateDB_Commit = (\<lambda>s revision.
         if Suc s = failAt then (Inl ''commit failed'', Suc s)
         else (Inr (test_root (Suc s)), Suc s)),
      TrieDB_Commit = (\<lambda>s root. (None, s)),
      State_New = (\<lambda>s root. s)\<rparr>"

definition test_flags :: "int \<Rightarrow> int \<Rightarrow> int \<Rightarrow> int \<Rightarrow> flags" where
  "test_flags n slots m k =
     \<lparr>nAccounts = n, nSlots = slots, mModify = m, kCommit = k,
      dbPath = ''mpt_bench_db'', clearDB = True\<rparr>"

definition test_vars :: "(nat, nat) vars" where
  "test_vars =
     \<lparr>statedb = 0, addrs = [], currentRoot = zeroHash, rnd = 0, totalSlots = 0, out = []\<rparr>"

function draw_each :: "nat \<Rightarrow> nat \<Rightarrow> (nat \<Rightarrow> 'r \<Rightarrow> 'x list \<times> 'r) \<Rightarrow> 'r \<Rightarrow> 'x list \<times> 'r" where
  "draw_each i hi g r =
     (if i < hi then
        (let (xs, r1) = g i r; (ys, r2) = draw_each (Suc i) hi g r1 in (xs @ ys, r2))
      else ([], r))"
  by pat_completeness auto
termination
  by (relation "measure (\<lambda>(i, hi, g, r). hi - i)") auto

declare draw_each.simps [simp del]

definition spec_value :: "'r lib \<Rightarrow> 'r \<Rightarrow> bytes \<times> 'r" where
  "spec_value L r =
     (let (d, r1) = Intn L r 100
      in if d < 20 then (replicate 32 0, r1)
         else if d < 30 then (replicate 31 0 @ [1], r1)
         else Read L r1 32)"

definition spec_slot ::
  "'r lib \<Rightarrow> (int \<Rightarrow> int \<Rightarrow> bytes) \<Rightarrow> int \<Rightarrow> bytes \<Rightarrow> nat \<Rightarrow> 'r \<Rightarrow> event list \<times> 'r" where
  "spec_slot L key i addr j r =
     (let (x, r1) = spec_value L r in ([SetState addr (key i (int j)) x], r1))"

definition spec_account ::
  "'r lib \<Rightarrow> (int \<Rightarrow> int \<Rightarrow> bytes) \<Rightarrow> int \<Rightarrow> nat \<Rightarrow> 'r \<Rightarrow> event list \<times> 'r" where
  "spec_account L key avgSlots i r =
     (let addr = account_addr L (int i);
          (vSlots, r1) = Intn L r (2 * avgSlots);
          (slots, r2) = draw_each 0 (nat vSlots) (spec_slot L key (int i) addr) r1
      in (SetBalance addr (10 ^ 18) # SetNonce addr (int i) # slots, r2))"

definition spec_creation ::
  "'r lib \<Rightarrow> (int \<Rightarrow> int \<Rightarrow> bytes) \<Rightarrow> nat \<Rightarrow> int \<Rightarrow> event list" where
  "spec_creation L key n avgSlots =
     fst (draw_each 0 n (spec_account L key avgSlots) (NewRand L 42))"

definition progress1 :: "flags \<Rightarrow> nat \<Rightarrow> event list" where
  "progress1 fl i =
     (if (int i + 1) smod 10 = 0 \<or> int i + 1 = nAccounts fl
      then [Print (MsgProcessed (int i + 1) (nAccounts fl))] else [])"

definition phase1_start :: "'r lib \<Rightarrow> flags \<Rightarrow> ('r, 's) vars \<Rightarrow> ('r, 's) vars" where
  "phase1_start L fl st0 =
     (emit (Print (MsgPhase1 (nAccounts fl) (nSlots fl) (kCommit fl))) st0)
       \<lparr>addrs := replicate (nat (nAccounts fl)) zeroAddress, rnd := NewRand L 42,
        totalSlots := 0\<rparr>"

definition phase1_end :: "backend \<Rightarrow> ('r, 's) vars \<Rightarrow> event list" where
  "phase1_end v st =
     Print (MsgCreationFinished (currentRoot st)) #
     (case v of Pebble \<Rightarrow> [Print (MsgTotalCreated (totalSlots st))] | LevelDB \<Rightarrow> [])"

definition spec_mod_slot ::
  "'r lib \<Rightarrow> (int \<Rightarrow> int \<Rightarrow> bytes) \<Rightarrow> int \<Rightarrow> int \<Rightarrow> bytes \<Rightarrow> nat \<Rightarrow> 'r \<Rightarrow> event list \<times> 'r" where
  "spec_mod_slot L key avgSlots accountIdx addr j r =
     (let (slotIndex, r1) = Intn L r avgSlots;
          (x, r2) = Read L r1 32
      in ([SetState addr (key accountIdx slotIndex) x], r2))"

definition spec_mod_account ::
  "'r lib \<Rightarrow> (int \<Rightarrow> int \<Rightarrow> bytes) \<Rightarrow> int \<Rightarrow> bytes list \<Rightarrow> int list \<Rightarrow> nat \<Rightarrow> 'r \<Rightarrow>
     event list \<times> 'r" where
  "spec_mod_account L key avgSlots as perm i r =
     draw_each 0 500 (spec_mod_slot L key avgSlots (perm ! i) (as ! nat (perm ! i))) r"

definition spec_modification ::
  "'r lib \<Rightarrow> (int \<Rightarrow> int \<Rightarrow> bytes) \<Rightarrow> int \<Rightarrow> int \<Rightarrow> nat \<Rightarrow> int \<Rightarrow> bytes list \<Rightarrow> event list" where
  "spec_modification L key n avgSlots m now as =
     (let (perm, r) = Perm L (NewRand L now) n
      in fst (draw_each 0 m (spec_mod_account L key avgSlots as perm) r))"

definition progress2 :: "int \<Rightarrow> nat \<Rightarrow> event list" where
  "progress2 m i =
     (if (int i + 1) smod 10 = 0 \<or> int i + 1 = m
      then [Print (MsgModified (int i + 1) m)] else [])"

definition phase2_perm :: "'r lib \<Rightarrow> flags \<Rightarrow> int \<Rightarrow> int list" where
  "phase2_perm L fl now = fst (Perm L (NewRand L now) (nAccounts fl))"

definition phase2_start :: "'r lib \<Rightarrow> flags \<Rightarrow> int \<Rightarrow> ('r, 's) vars \<Rightarrow> ('r, 's) vars" where
  "phase2_start L fl now st0 =
     (emit (Print (MsgPhase2 (clamp_modify fl) (kCommit fl))) st0)
       \<lparr>rnd := snd (Perm L (NewRand L now) (nAccounts fl)), totalSlots := 0\<rparr>"

definition phase2_end :: "backend \<Rightarrow> ('r, 's) vars \<Rightarrow> event list" where
  "phase2_end v st =
     Print (MsgModFinished (currentRoot st)) #
     (case v of Pebble \<Rightarrow> [Print (MsgTotalModified (totalSlots st))] | LevelDB \<Rightarrow> [])"

definition store_never_fails :: "'s store \<Rightarrow> bool" where
  "store_never_fails S \<longleftrightarrow>
     (\<forall>s revision. \<exists>root. fst (StateDB_Commit S s revision) = Inr root) \<and>
     (\<forall>s root. fst (TrieDB_Commit S s root) = None)"

text \<open>The variables at the moment a step ends, however it ends.\<close>

definition last_vars :: "('r, 's) step \<Rightarrow> ('r, 's) vars" where
  "last_vars x = (case x of Inl (f, st) \<Rightarrow> st | Inr st \<Rightarrow> st)"

text \<open>The variables of \<^verbatim>\<open>main\<close> when phase 1 starts, on the store state \<open>s0\<close> just opened.\<close>

definition main_start :: "'r lib \<Rightarrow> flags \<Rightarrow> 's \<Rightarrow> ('r, 's) vars" where
  "main_start L fl s0 =
     \<lparr>statedb = s0, addrs = [], currentRoot = zeroHash, rnd = NewRand L 42, totalSlots = 0,
      out = (if clearDB fl
             then [Print (MsgCleaning (dbPath fl)), RemoveAll (dbPath fl)] else []) @
            [Print (MsgInitDB (dbPath fl)), Print MsgInitTrie]\<rparr>"

text \<open>A commit, of the state or of the trie, that answered an error.\<close>

fun failed_commit :: "event \<Rightarrow> bool" where
  "failed_commit (StateCommit revision (Inl err)) = True"
| "failed_commit (TrieCommit root (Some err)) = True"
| "failed_commit e = False"

text \<open>The line that reports the error of a failed commit, in either phase.\<close>

fun reports :: "event \<Rightarrow> msg \<Rightarrow> bool" where
  "reports (StateCommit revision (Inl err)) m =
     (m = MsgCommitFailed err \<or> m = MsgModCommitFailed err)"
| "reports (TrieCommit root (Some err)) m =
     (m = MsgTrieCommitFailed err \<or> m = MsgModTrieCommitFailed err)"
| "reports e m = False"

fun is_final_report :: "event \<Rightarrow> bool" where
  "is_final_report (Print (MsgFinalReport path)) = True"
| "is_final_report e = False"

text \<open>
  The root of the last boundary at which both commits succeeded (the trie commit is the
  second of the two), or \<open>d\<close> when there is none.
\<close>

fun last_root :: "bytes \<Rightarrow> event list \<Rightarrow> bytes" where
  "last_root d [] = d"
| "last_root d (TrieCommit root None # es) = last_root root es"
| "last_root d (e # es) = last_root d es"

fun plain :: "event \<Rightarrow> bool" where
  "plain (TrieCommit root err) = False"
| "plain (StateCommit revision (Inl err)) = False"
| "plain (Print (MsgFinalReport path)) = False"
| "plain e = True"

definition good :: "('r, 's) vars \<Rightarrow> bool" where
  "good t \<longleftrightarrow>
     (\<forall>x \<in> set (out t). \<not> failed_commit x \<and> \<not> is_final_report x) \<and>
     currentRoot t = last_root zeroHash (out t)"

definition stopped_well :: "fault \<times> ('r, 's) vars \<Rightarrow> bool" where
  "stopped_well x =
     (case x of
        (Panicked p, t) \<Rightarrow> good t
      | (Returned, t) \<Rightarrow>
          (\<exists>pre e m. out t = pre @ [e, Print m] \<and> failed_commit e \<and> reports e m \<and>
             (\<forall>x \<in> set pre. \<not> failed_commit x \<and> \<not> is_final_report x) \<and>
             currentRoot t = last_root zeroHash pre))"

text \<open>\<open>t\<close> continues the trace of \<open>s\<close>, and every event it has added satisfies \<open>p\<close>.\<close>

definition appended_all :: "(event \<Rightarrow> bool) \<Rightarrow> ('r, 's) vars \<Rightarrow> ('r, 's) vars \<Rightarrow> bool" where
  "appended_all p s t \<longleftrightarrow> prefix (out s) (out t) \<and> (\<forall>e \<in> set (events_since s t). p e)"

text \<open>The events of the commit block of a batch boundary.\<close>

definition commit_event ::
  "int \<Rightarrow> (string \<Rightarrow> msg) \<Rightarrow> (string \<Rightarrow> msg) \<Rightarrow> (bytes \<Rightarrow> msg) \<Rightarrow> event \<Rightarrow> bool" where
  "commit_event revision failed trieFailed report e \<longleftrightarrow>
     (\<exists>res. e = StateCommit revision res) \<or> (\<exists>root err. e = TrieCommit root err) \<or>
     (\<exists>err. e = Print (failed err)) \<or> (\<exists>err. e = Print (trieFailed err)) \<or>
     (\<exists>root. e = Print (report root)) \<or> (\<exists>root. e = StateNew root)"

text \<open>The events that the creation of account \<open>i\<close> can add to the trace.\<close>

definition creation_event :: "'r lib \<Rightarrow> backend \<Rightarrow> flags \<Rightarrow> nat \<Rightarrow> event \<Rightarrow> bool" where
  "creation_event L v fl i e \<longleftrightarrow>
     e = SetBalance (account_addr L (int i)) (10 ^ 18) \<or>
     e = SetNonce (account_addr L (int i)) (uint64 (int i)) \<or>
     (\<exists>j x. e = SetState (account_addr L (int i)) (slot_key L v (int i) (int j)) x \<and>
        (x = zeroHash \<or> x = zeroHash[31 := 1] \<or> (\<exists>r. x = fst (Read L r 32)))) \<or>
     e = Print (MsgProcessed (int i + 1) (nAccounts fl)) \<or>
     commit_event (revision1 (int i) (kCommit fl)) MsgCommitFailed MsgTrieCommitFailed
       (MsgBatch (int i sdiv kCommit fl + 1)) e"

text \<open>
  The events that the modification of the \<open>i\<close>-th permuted account can add to the trace,
  with the addresses \<open>as\<close> of phase 1.
\<close>

definition modification_event ::
  "'r lib \<Rightarrow> backend \<Rightarrow> flags \<Rightarrow> bytes list \<Rightarrow> int list \<Rightarrow> nat \<Rightarrow> event \<Rightarrow> bool" where
  "modification_event L v fl as perm i e \<longleftrightarrow>
     (i < length perm \<and> 0 \<le> perm ! i \<and> nat (perm ! i) < length as \<and> 0 < nSlots fl \<and>
      (\<exists>r r'. e = SetState (as ! nat (perm ! i))
                    (slot_key L v (perm ! i) (fst (Intn L r (nSlots fl))))
                    (fst (Read L r' 32)))) \<or>
     e = Print (MsgModified (int i + 1) (clamp_modify fl)) \<or>
     commit_event (revision2 (int i) (kCommit fl)) MsgModCommitFailed MsgModTrieCommitFailed
       (\<lambda>_. MsgModBatch) e"

text \<open>The events that phase 1, and phase 2 on the addresses \<open>as\<close>, can add to the trace.\<close>

definition phase1_event :: "'r lib \<Rightarrow> backend \<Rightarrow> flags \<Rightarrow> event \<Rightarrow> bool" where
  "phase1_event L v fl e \<longleftrightarrow>
     (\<exists>i < nat (nAccounts fl). creation_event L v fl i e) \<or>
     e = Print (MsgPhase1 (nAccounts fl) (nSlots fl) (kCommit fl)) \<or>
     (\<exists>root. e = Print (MsgCreationFinished root)) \<or>
     (\<exists>c. e = Print (MsgTotalCreated c))"

definition phase2_event ::
  "'r lib \<Rightarrow> backend \<Rightarrow> flags \<Rightarrow> int \<Rightarrow> bytes list \<Rightarrow> event \<Rightarrow> bool" where
  "phase2_event L v fl now as e \<longleftrightarrow>
     (\<exists>i < nat (clamp_modify fl). modification_event L v fl as (phase2_perm L fl now) i e) \<or>
     e = Print (MsgPhase2 (clamp_modify fl) (kCommit fl)) \<or>
     (\<exists>root. e = Print (MsgModFinished root)) \<or>
     (\<exists>c. e = Print (MsgTotalModified c))"

text \<open>
  The part of the trace of \<^verbatim>\<open>main\<close> before the line that announces phase 2, and the part
  after it.
\<close>

fun phase1_events :: "event list \<Rightarrow> event list" where
  "phase1_events [] = []"
| "phase1_events (Print (MsgPhase2 m k) # es) = []"
| "phase1_events (e # es) = e # phase1_events es"

fun phase2_events :: "event list \<Rightarrow> event list" where
  "phase2_events [] = []"
| "phase2_events (Print (MsgPhase2 m k) # es) = es"
| "phase2_events (e # es) = phase2_events es"

fun is_phase2_line :: "event \<Rightarrow> bool" where
  "is_phase2_line (Print (MsgPhase2 m k)) = True"
| "is_phase2_line e = False"

section \<open>Properties\<close>

subsection \<open>Loops and traces\<close>

lemma emit_simps [simp]:
  "out (emit e s) = out s @ [e]"
  "statedb (emit e s) = statedb s"
  "addrs (emit e s) = addrs s"
  "currentRoot (emit e s) = currentRoot s"
  "rnd (emit e s) = rnd s"
  "totalSlots (emit e s) = totalSlots s"
  by (simp_all add: emit_def)

lemma for_loop_step:
  "i < hi \<Longrightarrow> for_loop i hi body s =
     (case body i s of Inl e \<Rightarrow> Inl e | Inr s' \<Rightarrow> for_loop (Suc i) hi body s')"
  by (subst for_loop.simps) simp

lemma for_loop_done: "\<not> i < hi \<Longrightarrow> for_loop i hi body s = Inr s"
  by (subst for_loop.simps) simp

text \<open>
  The invariant rule: \<open>I i\<close> holds before iteration \<open>i\<close>, \<open>Q\<close> of every way of stopping
  early.
\<close>

lemma for_loop_rule:
  assumes "I lo s" and "lo \<le> hi"
    and "\<And>i s. lo \<le> i \<Longrightarrow> i < hi \<Longrightarrow> I i s \<Longrightarrow>
           (case body i s of Inl e \<Rightarrow> Q e | Inr s' \<Rightarrow> I (Suc i) s')"
  shows "case for_loop lo hi body s of Inl e \<Rightarrow> Q e | Inr s' \<Rightarrow> I hi s'"
  using assms
proof (induction lo hi body s rule: for_loop.induct)
  case (1 i hi body s)
  show ?case
  proof (cases "i < hi")
    case False
    with "1.prems"(2) have "i = hi" by simp
    with "1.prems"(1) show ?thesis by (simp add: for_loop_done)
  next
    case True
    note step = "1.prems"(3) [OF le_refl True "1.prems"(1)]
    show ?thesis
    proof (cases "body i s")
      case (Inl e)
      with step True show ?thesis by (simp add: for_loop_step)
    next
      case (Inr s')
      with step have I': "I (Suc i) s'" by simp
      have le: "Suc i \<le> hi" using True by simp
      have "case for_loop (Suc i) hi body s' of Inl e \<Rightarrow> Q e | Inr t \<Rightarrow> I hi t"
      proof (rule "1.IH" [OF True Inr I' le])
        fix j t assume "Suc i \<le> j" "j < hi" "I j t"
        then show "case body j t of Inl e \<Rightarrow> Q e | Inr s' \<Rightarrow> I (Suc j) s'"
          using "1.prems"(3) [of j t] by simp
      qed
      then show ?thesis using True Inr by (simp add: for_loop_step)
    qed
  qed
qed

lemma smod_nonneg: "0 \<le> a \<Longrightarrow> 0 < b \<Longrightarrow> (a::int) smod b = a mod b"
  by (simp add: signed_modulo_int_def sgn_if)

lemma sdiv_nonneg: "0 \<le> a \<Longrightarrow> 0 < b \<Longrightarrow> (a::int) sdiv b = a div b"
  by (simp add: signed_divide_int_def sgn_if)

lemma commit_batch_eq:
  "commit_batch S rv failed trieFailed report st =
     (case StateDB_Commit S (statedb st) rv of
        (Inl err, s1) \<Rightarrow>
          Inl (Returned, st\<lparr>statedb := s1,
                 out := out st @ [StateCommit rv (Inl err), Print (failed err)]\<rparr>)
      | (Inr root, s1) \<Rightarrow>
         (case TrieDB_Commit S s1 root of
            (Some e, s2) \<Rightarrow>
              Inl (Returned, st\<lparr>statedb := s2,
                     out := out st @ [StateCommit rv (Inr root), TrieCommit root (Some e),
                                      Print (trieFailed e)]\<rparr>)
          | (None, s2) \<Rightarrow>
              Inr (st\<lparr>statedb := State_New S s2 root, currentRoot := root,
                     out := out st @ [StateCommit rv (Inr root), TrieCommit root None,
                                      Print (report root), StateNew root]\<rparr>)))"
  by (simp add: commit_batch_def emit_def Let_def split: prod.splits sum.splits option.splits)

lemma create_slot_eq:
  "create_slot L S v i addr j st =
     (let (dice, r1) = Intn L (rnd st) 100;
          (slotVal, r2) = (if dice < 20 then (zeroHash, r1)
                           else if dice < 30 then (zeroHash[31 := 1], r1)
                           else Read L r1 32)
      in Inr (count_slot v st\<lparr>rnd := r2,
                statedb := StateDB_SetState S (statedb st) addr (slot_key L v i (int j)) slotVal,
                out := out st @ [SetState addr (slot_key L v i (int j)) slotVal]\<rparr>))"
  by (simp add: create_slot_def rand_Intn_def do_SetState_def emit_def count_slot_def Let_def
      split: prod.splits backend.splits)

lemma count_slot_simps [simp]:
  "out (count_slot v s) = out s"
  "statedb (count_slot v s) = statedb s"
  "addrs (count_slot v s) = addrs s"
  "currentRoot (count_slot v s) = currentRoot s"
  "rnd (count_slot v s) = rnd s"
  by (simp_all add: count_slot_def split: backend.splits)

lemma create_slot_Inr:
  "\<exists>st' x. create_slot L S v i addr j st = Inr st' \<and>
      out st' = out st @ [SetState addr (slot_key L v i (int j)) x] \<and>
      addrs st' = addrs st \<and> currentRoot st' = currentRoot st"
  by (simp add: create_slot_eq Let_def split: prod.splits)

lemma draw_each_step:
  "i < hi \<Longrightarrow> draw_each i hi g r =
     (let (xs, r1) = g i r; (ys, r2) = draw_each (Suc i) hi g r1 in (xs @ ys, r2))"
  by (subst draw_each.simps) simp

lemma draw_each_done: "\<not> i < hi \<Longrightarrow> draw_each i hi g r = ([], r)"
  by (subst draw_each.simps) simp

lemma for_loop_thread:
  assumes J: "J s" and le: "lo \<le> hi"
    and hom: "\<And>xs ys. h (xs @ ys) = h xs @ h ys" and h0: "h [] = []"
    and step: "\<And>i t. lo \<le> i \<Longrightarrow> i < hi \<Longrightarrow> J t \<Longrightarrow>
       (case body i t of
          Inl e \<Rightarrow> Q e
        | Inr t' \<Rightarrow> J t' \<and> rnd t' = snd (g i (rnd t)) \<and>
                    (\<exists>es. out t' = out t @ es \<and> h es = fst (g i (rnd t))))"
  shows "case for_loop lo hi body s of
           Inl e \<Rightarrow> Q e
         | Inr s' \<Rightarrow> J s' \<and> rnd s' = snd (draw_each lo hi g (rnd s)) \<and>
                     (\<exists>es. out s' = out s @ es \<and> h es = fst (draw_each lo hi g (rnd s)))"
proof -
  define I where "I = (\<lambda>i t. J t \<and>
     (\<exists>es. out t = out s @ es \<and>
        fst (draw_each lo hi g (rnd s)) = h es @ fst (draw_each i hi g (rnd t))) \<and>
     snd (draw_each lo hi g (rnd s)) = snd (draw_each i hi g (rnd t)))"
  have start: "I lo s" using J h0 by (simp add: I_def)
  have "case for_loop lo hi body s of Inl e \<Rightarrow> Q e | Inr s' \<Rightarrow> I hi s'"
  proof (rule for_loop_rule [of I, OF start le])
    fix i t assume i: "lo \<le> i" "i < hi" and It: "I i t"
    from It have Jt: "J t" by (simp add: I_def)
    from It obtain es where es: "out t = out s @ es"
      "fst (draw_each lo hi g (rnd s)) = h es @ fst (draw_each i hi g (rnd t))"
      "snd (draw_each lo hi g (rnd s)) = snd (draw_each i hi g (rnd t))"
      by (auto simp: I_def)
    show "case body i t of Inl e \<Rightarrow> Q e | Inr s' \<Rightarrow> I (Suc i) s'"
    proof (cases "body i t")
      case (Inl e)
      with step [OF i Jt] show ?thesis by simp
    next
      case (Inr t')
      with step [OF i Jt] obtain bs where t': "J t'" "rnd t' = snd (g i (rnd t))"
        "out t' = out t @ bs" "h bs = fst (g i (rnd t))" by auto
      have d: "draw_each i hi g (rnd t) =
          (fst (g i (rnd t)) @ fst (draw_each (Suc i) hi g (rnd t')),
           snd (draw_each (Suc i) hi g (rnd t')))"
        using i(2) t'(2) by (simp add: draw_each_step split: prod.splits)
      have "I (Suc i) t'"
        unfolding I_def using t' es d hom by auto
      with Inr show ?thesis by simp
    qed
  qed
  then show ?thesis
    by (auto simp: I_def draw_each_done split: sum.splits)
qed

lemma small_value: "(replicate 32 0)[31 := 1] = replicate 31 0 @ [1::byte]"
  by code_simp

lemma create_slot_spec:
  "\<exists>t'. create_slot L S v i addr j t = Inr t' \<and>
     addrs t' = addrs t \<and> currentRoot t' = currentRoot t \<and>
     rnd t' = snd (spec_slot L (slot_key L v) i addr j (rnd t)) \<and>
     out t' = out t @ fst (spec_slot L (slot_key L v) i addr j (rnd t))"
  by (simp add: create_slot_eq spec_slot_def spec_value_def zeroHash_def small_value Let_def
      split: prod.splits)

lemma create_slots_spec:
  "\<exists>st'. for_loop 0 c (create_slot L S v i addr) st = Inr st' \<and>
     addrs st' = addrs st \<and> currentRoot st' = currentRoot st \<and>
     rnd st' = snd (draw_each 0 c (spec_slot L (slot_key L v) i addr) (rnd st)) \<and>
     out st' = out st @ fst (draw_each 0 c (spec_slot L (slot_key L v) i addr) (rnd st))"
  for st :: "('r, 's) vars"
proof -
  have "case for_loop 0 c (create_slot L S v i addr) st of
          Inl e \<Rightarrow> False
        | Inr s' \<Rightarrow> (addrs s' = addrs st \<and> currentRoot s' = currentRoot st) \<and>
            rnd s' = snd (draw_each 0 c (spec_slot L (slot_key L v) i addr) (rnd st)) \<and>
            (\<exists>es. out s' = out st @ es \<and>
               (\<lambda>x. x) es = fst (draw_each 0 c (spec_slot L (slot_key L v) i addr) (rnd st)))"
  proof (rule for_loop_thread
      [where J = "\<lambda>t. addrs t = addrs st \<and> currentRoot t = currentRoot st"])
    fix j and t :: "('r, 's) vars" assume "addrs t = addrs st \<and> currentRoot t = currentRoot st"
    then show "case create_slot L S v i addr j t of
        Inl e \<Rightarrow> False
      | Inr t' \<Rightarrow> (addrs t' = addrs st \<and> currentRoot t' = currentRoot st) \<and>
          rnd t' = snd (spec_slot L (slot_key L v) i addr j (rnd t)) \<and>
          (\<exists>es. out t' = out t @ es \<and> es = fst (spec_slot L (slot_key L v) i addr j (rnd t)))"
      using create_slot_spec [of L S v i addr j t] by auto
  qed simp_all
  then show ?thesis by (auto split: sum.splits)
qed

lemma create_account_eq:
  fixes st :: "('r, 's) vars"
  assumes pos: "0 < wrap_int64 (nSlots fl * 2)"
  obtains st5 where
    "create_account L S v fl i st =
       (case at_boundary (int i) (kCommit fl) (nAccounts fl) of
          None \<Rightarrow> Inl (Panicked ''integer divide by zero'', st5)
        | Some False \<Rightarrow> Inr st5
        | Some True \<Rightarrow>
            commit_batch S (revision1 (int i) (kCommit fl))
              MsgCommitFailed MsgTrieCommitFailed
              (MsgBatch (int i sdiv kCommit fl + 1)) st5)"
    "out st5 = out st @
       SetBalance (account_addr L (int i)) (10 ^ 18) #
       SetNonce (account_addr L (int i)) (uint64 (int i)) #
       fst (draw_each 0 (nat (fst (Intn L (rnd st) (wrap_int64 (nSlots fl * 2)))))
              (spec_slot L (slot_key L v) (int i) (account_addr L (int i)))
              (snd (Intn L (rnd st) (wrap_int64 (nSlots fl * 2))))) @
       progress1 fl i"
    "rnd st5 =
       snd (draw_each 0 (nat (fst (Intn L (rnd st) (wrap_int64 (nSlots fl * 2)))))
              (spec_slot L (slot_key L v) (int i) (account_addr L (int i)))
              (snd (Intn L (rnd st) (wrap_int64 (nSlots fl * 2)))))"
    "currentRoot st5 = currentRoot st"
    "addrs st5 = (addrs st)[i := account_addr L (int i)]"
proof -
  define a where "a = account_addr L (int i)"
  define vS where "vS = fst (Intn L (rnd st) (wrap_int64 (nSlots fl * 2)))"
  define r1 where "r1 = snd (Intn L (rnd st) (wrap_int64 (nSlots fl * 2)))"
  define st3 :: "('r, 's) vars" where "st3 =
     emit (SetNonce a (uint64 (int i)))
       ((emit (SetBalance a (10 ^ 18))
          (st\<lparr>addrs := (addrs st)[i := a],
              statedb := StateDB_SetBalance S (statedb st) a (10 ^ 18)\<rparr>))
        \<lparr>statedb := StateDB_SetNonce S (StateDB_SetBalance S (statedb st) a (10 ^ 18))
                      a (uint64 (int i))\<rparr>)"
  obtain st4 where st4: "for_loop 0 (nat vS) (create_slot L S v (int i) a) (st3\<lparr>rnd := r1\<rparr>) = Inr st4"
    "addrs st4 = addrs (st3\<lparr>rnd := r1\<rparr>)" "currentRoot st4 = currentRoot (st3\<lparr>rnd := r1\<rparr>)"
    "rnd st4 = snd (draw_each 0 (nat vS) (spec_slot L (slot_key L v) (int i) a) (rnd (st3\<lparr>rnd := r1\<rparr>)))"
    "out st4 = out (st3\<lparr>rnd := r1\<rparr>) @
       fst (draw_each 0 (nat vS) (spec_slot L (slot_key L v) (int i) a) (rnd (st3\<lparr>rnd := r1\<rparr>)))"
    using create_slots_spec [of "nat vS" L S v "int i" a "st3\<lparr>rnd := r1\<rparr>"] by blast
  define st5 where "st5 =
     (if (int i + 1) smod 10 = 0 \<or> int i + 1 = nAccounts fl
      then emit (Print (MsgProcessed (int i + 1) (nAccounts fl))) st4 else st4)"
  have 1: "create_account L S v fl i st =
       (case at_boundary (int i) (kCommit fl) (nAccounts fl) of
          None \<Rightarrow> Inl (Panicked ''integer divide by zero'', st5)
        | Some False \<Rightarrow> Inr st5
        | Some True \<Rightarrow>
            commit_batch S (revision1 (int i) (kCommit fl))
              MsgCommitFailed MsgTrieCommitFailed
              (MsgBatch (int i sdiv kCommit fl + 1)) st5)"
    using pos st4(1) unfolding st5_def st3_def vS_def r1_def a_def
    by (simp add: create_account_def rand_Intn_def Let_def split_beta)
  have 2: "out st5 = out st @ SetBalance a (10 ^ 18) # SetNonce a (uint64 (int i)) #
       fst (draw_each 0 (nat vS) (spec_slot L (slot_key L v) (int i) a) r1) @ progress1 fl i"
    using st4(5) by (simp add: st5_def st3_def progress1_def)
  have 3: "rnd st5 = snd (draw_each 0 (nat vS) (spec_slot L (slot_key L v) (int i) a) r1)"
    using st4(4) by (simp add: st5_def)
  have 4: "currentRoot st5 = currentRoot st" using st4(3) by (simp add: st5_def st3_def)
  have 5: "addrs st5 = (addrs st)[i := a]" using st4(2) by (simp add: st5_def st3_def)
  show thesis
    using that [OF 1 [unfolded a_def vS_def r1_def] 2 [unfolded a_def vS_def r1_def]
        3 [unfolded a_def vS_def r1_def] 4 5 [unfolded a_def]] .
qed

lemma wrap_int64_id: "- (2 ^ 63) \<le> x \<Longrightarrow> x < 2 ^ 63 \<Longrightarrow> wrap_int64 x = x"
  by (simp add: wrap_int64_def)

lemma uint64_id: "0 \<le> x \<Longrightarrow> x < 2 ^ 64 \<Longrightarrow> uint64 x = x"
  by (simp add: uint64_def)

lemma commit_batch_Inr:
  assumes "commit_batch S rv failed trieFailed report st = Inr st'"
  shows "\<exists>root res. out st' = out st @ [StateCommit rv (Inr root), TrieCommit root None,
                                     Print (report root), StateNew root] \<and>
     currentRoot st' = root \<and> rnd st' = rnd st \<and> addrs st' = addrs st \<and>
     totalSlots st' = totalSlots st"
  using assms
  by (auto simp: commit_batch_eq split: prod.splits sum.splits option.splits)

lemma progress1_no_mutation [simp]: "filter is_mutation (progress1 fl i) = []"
  by (simp add: progress1_def)

lemma spec_slot_mutations:
  "filter is_mutation (fst (spec_slot L key i a j r)) = fst (spec_slot L key i a j r)"
  by (simp add: spec_slot_def split_beta)

lemma draw_each_all:
  assumes "\<And>j r. \<forall>e \<in> set (fst (g j r)). P e"
  shows "\<forall>e \<in> set (fst (draw_each lo hi g r)). P e"
  using assms
proof (induction lo hi g r rule: draw_each.induct)
  case (1 i hi g r)
  show ?case
  proof (cases "i < hi")
    case True
    have A: "\<forall>e \<in> set (fst (g i r)). P e" by (rule "1.prems")
    have B: "\<forall>e \<in> set (fst (draw_each (Suc i) hi g (snd (g i r)))). P e"
      using "1.IH" [OF True refl, of "fst (g i r)" "snd (g i r)"] "1.prems" by simp
    have "fst (draw_each i hi g r) = fst (g i r) @ fst (draw_each (Suc i) hi g (snd (g i r)))"
      using True by (simp add: draw_each_step split_beta)
    with A B show ?thesis by (simp add: ball_Un)
  next
    case False
    then show ?thesis by (simp add: draw_each_done)
  qed
qed

lemma spec_slots_mutations:
  "filter is_mutation (fst (draw_each lo hi (spec_slot L key i a) r)) =
     fst (draw_each lo hi (spec_slot L key i a) r)"
proof -
  have "\<forall>e \<in> set (fst (draw_each lo hi (spec_slot L key i a) r)). is_mutation e"
    by (rule draw_each_all) (simp add: spec_slot_def split_beta)
  then show ?thesis by simp
qed

lemma create_account_spec:
  fixes t :: "('r, 's) vars"
  assumes slots: "0 < nSlots fl" "nSlots fl < 2 ^ 62" and i: "int i < 2 ^ 64"
  shows "case create_account L S v fl i t of
           Inl e \<Rightarrow> True
         | Inr t' \<Rightarrow>
             rnd t' = snd (spec_account L (slot_key L v) (nSlots fl) i (rnd t)) \<and>
             (\<exists>es. out t' = out t @ es \<and>
                filter is_mutation es = fst (spec_account L (slot_key L v) (nSlots fl) i (rnd t)))"
proof -
  have w: "wrap_int64 (nSlots fl * 2) = 2 * nSlots fl"
    using slots by (simp add: wrap_int64_id)
  then have pos: "0 < wrap_int64 (nSlots fl * 2)" using slots by simp
  have u: "uint64 (int i) = int i" using i by (simp add: uint64_id)
  obtain st5 where st5:
    "create_account L S v fl i t =
       (case at_boundary (int i) (kCommit fl) (nAccounts fl) of
          None \<Rightarrow> Inl (Panicked ''integer divide by zero'', st5)
        | Some False \<Rightarrow> Inr st5
        | Some True \<Rightarrow>
            commit_batch S (revision1 (int i) (kCommit fl))
              MsgCommitFailed MsgTrieCommitFailed
              (MsgBatch (int i sdiv kCommit fl + 1)) st5)"
    "out st5 = out t @
       SetBalance (account_addr L (int i)) (10 ^ 18) #
       SetNonce (account_addr L (int i)) (uint64 (int i)) #
       fst (draw_each 0 (nat (fst (Intn L (rnd t) (wrap_int64 (nSlots fl * 2)))))
              (spec_slot L (slot_key L v) (int i) (account_addr L (int i)))
              (snd (Intn L (rnd t) (wrap_int64 (nSlots fl * 2))))) @
       progress1 fl i"
    "rnd st5 =
       snd (draw_each 0 (nat (fst (Intn L (rnd t) (wrap_int64 (nSlots fl * 2)))))
              (spec_slot L (slot_key L v) (int i) (account_addr L (int i)))
              (snd (Intn L (rnd t) (wrap_int64 (nSlots fl * 2)))))"
    using create_account_eq [OF pos, of L S v i t] by metis
  have r5: "rnd st5 = snd (spec_account L (slot_key L v) (nSlots fl) i (rnd t))"
    using st5(3) by (simp add: spec_account_def w split_beta Let_def)
  have m5: "filter is_mutation (drop (length (out t)) (out st5)) =
      fst (spec_account L (slot_key L v) (nSlots fl) i (rnd t))"
    using st5(2) by (simp add: spec_account_def w u split_beta Let_def spec_slots_mutations)
  have o5: "out st5 = out t @ drop (length (out t)) (out st5)"
    using st5(2) by simp
  show ?thesis
  proof (cases "create_account L S v fl i t")
    case (Inl e)
    then show ?thesis by simp
  next
    case (Inr t')
    show ?thesis
    proof (cases "at_boundary (int i) (kCommit fl) (nAccounts fl)")
      case None
      with st5(1) Inr show ?thesis by simp
    next
      case (Some b)
      show ?thesis
      proof (cases b)
        case False
        with Some st5(1) Inr have "t' = st5" by simp
        with Inr r5 m5 o5 show ?thesis by auto
      next
        case True
        with Some st5(1) Inr have
          "commit_batch S (revision1 (int i) (kCommit fl)) MsgCommitFailed MsgTrieCommitFailed
              (MsgBatch (int i sdiv kCommit fl + 1)) st5 = Inr t'" by simp
        from commit_batch_Inr [OF this] obtain root where
          c: "out t' = out st5 @ [StateCommit (revision1 (int i) (kCommit fl)) (Inr root),
                TrieCommit root None, Print (MsgBatch (int i sdiv kCommit fl + 1) root),
                StateNew root]" "rnd t' = rnd st5" by auto
        have "out t' = out t @ (drop (length (out t)) (out st5) @
               [StateCommit (revision1 (int i) (kCommit fl)) (Inr root),
                TrieCommit root None, Print (MsgBatch (int i sdiv kCommit fl + 1) root),
                StateNew root])"
          using c(1) o5 by simp
        moreover have "filter is_mutation (drop (length (out t)) (out st5) @
               [StateCommit (revision1 (int i) (kCommit fl)) (Inr root),
                TrieCommit root None, Print (MsgBatch (int i sdiv kCommit fl + 1) root),
                StateNew root]) = fst (spec_account L (slot_key L v) (nSlots fl) i (rnd t))"
          using m5 by simp
        ultimately show ?thesis using Inr c(2) r5 by auto
      qed
    qed
  qed
qed

lemma phase1_start_simps [simp]:
  "out (phase1_start L fl st0) =
     out st0 @ [Print (MsgPhase1 (nAccounts fl) (nSlots fl) (kCommit fl))]"
  "rnd (phase1_start L fl st0) = NewRand L 42"
  "addrs (phase1_start L fl st0) = replicate (nat (nAccounts fl)) zeroAddress"
  "currentRoot (phase1_start L fl st0) = currentRoot st0"
  "statedb (phase1_start L fl st0) = statedb st0"
  by (simp_all add: phase1_start_def)

lemma phase1_eq:
  "phase1 L S v fl st0 =
     (if nAccounts fl < 0
      then Inl (Panicked ''makeslice: len out of range'',
                emit (Print (MsgPhase1 (nAccounts fl) (nSlots fl) (kCommit fl))) st0)
      else case for_loop 0 (nat (nAccounts fl)) (create_account L S v fl) (phase1_start L fl st0) of
             Inl e \<Rightarrow> Inl e
           | Inr st3 \<Rightarrow> Inr (st3\<lparr>out := out st3 @ phase1_end v st3\<rparr>))"
  by (simp add: phase1_def phase1_start_def phase1_end_def emit_def Let_def
      split: sum.splits backend.splits)

lemma phase1_spec:
  fixes st0 :: "('r, 's) vars"
  assumes slots: "0 < nSlots fl" "nSlots fl < 2 ^ 62" and n: "nAccounts fl \<le> 2 ^ 63"
    and run: "phase1 L S v fl st0 = Inr st1"
  shows "filter is_mutation (events_since st0 st1) =
           spec_creation L (slot_key L v) (nat (nAccounts fl)) (nSlots fl)"
proof -
  from run have n0: "\<not> nAccounts fl < 0" by (auto simp: phase1_eq split: if_splits)
  from run n0 obtain st3 where
    loop: "for_loop 0 (nat (nAccounts fl)) (create_account L S v fl) (phase1_start L fl st0) = Inr st3"
    and st1: "st1 = st3\<lparr>out := out st3 @ phase1_end v st3\<rparr>"
    by (auto simp: phase1_eq split: sum.splits)
  have "case for_loop 0 (nat (nAccounts fl)) (create_account L S v fl) (phase1_start L fl st0) of
          Inl e \<Rightarrow> True
        | Inr s' \<Rightarrow> True \<and>
            rnd s' = snd (draw_each 0 (nat (nAccounts fl))
                           (spec_account L (slot_key L v) (nSlots fl))
                           (rnd (phase1_start L fl st0))) \<and>
            (\<exists>es. out s' = out (phase1_start L fl st0) @ es \<and>
               filter is_mutation es =
                 fst (draw_each 0 (nat (nAccounts fl))
                        (spec_account L (slot_key L v) (nSlots fl))
                        (rnd (phase1_start L fl st0))))"
  proof (rule for_loop_thread [where J = "\<lambda>t. True" and Q = "\<lambda>e. True"])
    fix i and t :: "('r, 's) vars"
    assume "i < nat (nAccounts fl)"
    then have "int i < 2 ^ 64" using n by simp
    from create_account_spec [OF slots this, where L = L and S = S and v = v and t = t]
    show "case create_account L S v fl i t of
        Inl e \<Rightarrow> True
      | Inr t' \<Rightarrow> True \<and>
          rnd t' = snd (spec_account L (slot_key L v) (nSlots fl) i (rnd t)) \<and>
          (\<exists>es. out t' = out t @ es \<and>
             filter is_mutation es = fst (spec_account L (slot_key L v) (nSlots fl) i (rnd t)))"
      by (auto split: sum.splits)
  qed simp_all
  with loop obtain es where es: "out st3 = out (phase1_start L fl st0) @ es"
    "filter is_mutation es =
       fst (draw_each 0 (nat (nAccounts fl)) (spec_account L (slot_key L v) (nSlots fl))
              (rnd (phase1_start L fl st0)))"
    by auto
  have "events_since st0 st1 =
      Print (MsgPhase1 (nAccounts fl) (nSlots fl) (kCommit fl)) # es @ phase1_end v st3"
    using es(1) by (simp add: events_since_def st1)
  then show ?thesis
    using es(2)
    by (simp add: spec_creation_def phase1_end_def split: backend.splits)
qed

lemma modify_slot_eq:
  "modify_slot L S v fl accountIdx addr j st =
     (if nSlots fl \<le> 0 then Inl (Panicked ''invalid argument to Intn'', count_slot v st)
      else
        let (slotIdx, r1) = Intn L (rnd st) (nSlots fl);
            (newVal, r2) = Read L r1 32
        in Inr (count_slot v st\<lparr>rnd := r2,
                  statedb := StateDB_SetState S (statedb st) addr
                               (slot_key L v accountIdx slotIdx) newVal,
                  out := out st @ [SetState addr (slot_key L v accountIdx slotIdx) newVal]\<rparr>))"
  by (simp add: modify_slot_def rand_Intn_def do_SetState_def emit_def count_slot_def Let_def
      split: prod.splits backend.splits)

lemma modify_slot_spec:
  "0 < nSlots fl \<Longrightarrow>
   \<exists>t'. modify_slot L S v fl accountIdx addr j t = Inr t' \<and>
     addrs t' = addrs t \<and> currentRoot t' = currentRoot t \<and>
     rnd t' = snd (spec_mod_slot L (slot_key L v) (nSlots fl) accountIdx addr j (rnd t)) \<and>
     out t' = out t @ fst (spec_mod_slot L (slot_key L v) (nSlots fl) accountIdx addr j (rnd t))"
  by (simp add: modify_slot_eq spec_mod_slot_def Let_def split: prod.splits)

lemma modify_slots_spec:
  fixes st :: "('r, 's) vars"
  assumes pos: "0 < nSlots fl"
  shows "\<exists>st'. for_loop 0 c (modify_slot L S v fl accountIdx addr) st = Inr st' \<and>
     addrs st' = addrs st \<and> currentRoot st' = currentRoot st \<and>
     rnd st' = snd (draw_each 0 c (spec_mod_slot L (slot_key L v) (nSlots fl) accountIdx addr) (rnd st)) \<and>
     out st' = out st @
       fst (draw_each 0 c (spec_mod_slot L (slot_key L v) (nSlots fl) accountIdx addr) (rnd st))"
proof -
  have "case for_loop 0 c (modify_slot L S v fl accountIdx addr) st of
          Inl e \<Rightarrow> False
        | Inr s' \<Rightarrow> (addrs s' = addrs st \<and> currentRoot s' = currentRoot st) \<and>
            rnd s' = snd (draw_each 0 c
                       (spec_mod_slot L (slot_key L v) (nSlots fl) accountIdx addr) (rnd st)) \<and>
            (\<exists>es. out s' = out st @ es \<and>
               (\<lambda>x. x) es = fst (draw_each 0 c
                       (spec_mod_slot L (slot_key L v) (nSlots fl) accountIdx addr) (rnd st)))"
  proof (rule for_loop_thread
      [where J = "\<lambda>t. addrs t = addrs st \<and> currentRoot t = currentRoot st"])
    fix j and t :: "('r, 's) vars" assume "addrs t = addrs st \<and> currentRoot t = currentRoot st"
    then show "case modify_slot L S v fl accountIdx addr j t of
        Inl e \<Rightarrow> False
      | Inr t' \<Rightarrow> (addrs t' = addrs st \<and> currentRoot t' = currentRoot st) \<and>
          rnd t' = snd (spec_mod_slot L (slot_key L v) (nSlots fl) accountIdx addr j (rnd t)) \<and>
          (\<exists>es. out t' = out t @ es \<and>
             es = fst (spec_mod_slot L (slot_key L v) (nSlots fl) accountIdx addr j (rnd t)))"
      using modify_slot_spec [OF pos, of L S v accountIdx addr j t] by auto
  qed simp_all
  then show ?thesis by (auto split: sum.splits)
qed

lemma modify_slots_panic:
  assumes "nSlots fl \<le> 0"
  shows "for_loop 0 slotsToModifyPerAccount (modify_slot L S v fl accountIdx addr) st =
           Inl (Panicked ''invalid argument to Intn'', count_slot v st)"
  using assms
  by (simp add: for_loop_step slotsToModifyPerAccount_def modify_slot_eq)

lemma modify_account_eq:
  fixes st :: "('r, 's) vars"
  assumes pos: "0 < nSlots fl"
    and i: "i < length perm" and idx: "0 \<le> perm ! i" "nat (perm ! i) < length (addrs st)"
  obtains st2 where
    "modify_account L S v fl m perm i st =
       (case at_boundary (int i) (kCommit fl) m of
          None \<Rightarrow> Inl (Panicked ''integer divide by zero'', st2)
        | Some False \<Rightarrow> Inr st2
        | Some True \<Rightarrow>
            commit_batch S (revision2 (int i) (kCommit fl))
              MsgModCommitFailed MsgModTrieCommitFailed (\<lambda>_. MsgModBatch) st2)"
    "out st2 = out st @
       fst (spec_mod_account L (slot_key L v) (nSlots fl) (addrs st) perm i (rnd st)) @
       progress2 m i"
    "rnd st2 = snd (spec_mod_account L (slot_key L v) (nSlots fl) (addrs st) perm i (rnd st))"
    "currentRoot st2 = currentRoot st"
    "addrs st2 = addrs st"
proof -
  obtain st1 where st1:
    "for_loop 0 slotsToModifyPerAccount
       (modify_slot L S v fl (perm ! i) (addrs st ! nat (perm ! i))) st = Inr st1"
    "addrs st1 = addrs st" "currentRoot st1 = currentRoot st"
    "rnd st1 = snd (draw_each 0 slotsToModifyPerAccount
        (spec_mod_slot L (slot_key L v) (nSlots fl) (perm ! i) (addrs st ! nat (perm ! i))) (rnd st))"
    "out st1 = out st @ fst (draw_each 0 slotsToModifyPerAccount
        (spec_mod_slot L (slot_key L v) (nSlots fl) (perm ! i) (addrs st ! nat (perm ! i))) (rnd st))"
    using modify_slots_spec [OF pos, of slotsToModifyPerAccount L S v "perm ! i"
        "addrs st ! nat (perm ! i)" st] by blast
  define st2 where "st2 =
     (if (int i + 1) smod 10 = 0 \<or> int i + 1 = m
      then emit (Print (MsgModified (int i + 1) m)) st1 else st1)"
  have 1: "modify_account L S v fl m perm i st =
       (case at_boundary (int i) (kCommit fl) m of
          None \<Rightarrow> Inl (Panicked ''integer divide by zero'', st2)
        | Some False \<Rightarrow> Inr st2
        | Some True \<Rightarrow>
            commit_batch S (revision2 (int i) (kCommit fl))
              MsgModCommitFailed MsgModTrieCommitFailed (\<lambda>_. MsgModBatch) st2)"
    using i idx st1(1) unfolding st2_def
    by (simp add: modify_account_def Let_def)
  have 2: "out st2 = out st @
       fst (spec_mod_account L (slot_key L v) (nSlots fl) (addrs st) perm i (rnd st)) @
       progress2 m i"
    using st1(5)
    by (simp add: st2_def progress2_def spec_mod_account_def slotsToModifyPerAccount_def)
  have 3: "rnd st2 = snd (spec_mod_account L (slot_key L v) (nSlots fl) (addrs st) perm i (rnd st))"
    using st1(4) by (simp add: st2_def spec_mod_account_def slotsToModifyPerAccount_def)
  have 4: "currentRoot st2 = currentRoot st" using st1(3) by (simp add: st2_def)
  have 5: "addrs st2 = addrs st" using st1(2) by (simp add: st2_def)
  show thesis using that [OF 1 2 3 4 5] .
qed

lemma phase2_start_simps [simp]:
  "out (phase2_start L fl now st0) =
     out st0 @ [Print (MsgPhase2 (clamp_modify fl) (kCommit fl))]"
  "rnd (phase2_start L fl now st0) = snd (Perm L (NewRand L now) (nAccounts fl))"
  "addrs (phase2_start L fl now st0) = addrs st0"
  "currentRoot (phase2_start L fl now st0) = currentRoot st0"
  "statedb (phase2_start L fl now st0) = statedb st0"
  by (simp_all add: phase2_start_def)

lemma phase2_eq:
  "phase2 L S v fl now st0 =
     (case for_loop 0 (nat (clamp_modify fl))
             (modify_account L S v fl (clamp_modify fl) (phase2_perm L fl now))
             (phase2_start L fl now st0) of
        Inl e \<Rightarrow> Inl e
      | Inr st3 \<Rightarrow> Inr (st3\<lparr>out := out st3 @ phase2_end v st3\<rparr>))"
  by (simp add: phase2_def phase2_start_def phase2_end_def phase2_perm_def emit_def Let_def
      split_beta split: sum.splits backend.splits)

lemma at_boundary_pos:
  "1 \<le> k \<Longrightarrow> at_boundary (int i) k n = Some ((int i + 1) mod k = 0 \<or> int i + 1 = n)"
  by (simp add: at_boundary_def smod_nonneg)

lemma revision1_pos:
  assumes "1 \<le> k" "int i < 2 ^ 63"
  shows "revision1 (int i) k = int i div k"
proof -
  have "int i div k \<le> int i div 1" using assms(1) by (intro zdiv_mono2) simp_all
  then have "int i div k \<le> int i" by simp
  moreover have "0 \<le> int i div k" using assms(1) by (simp add: pos_imp_zdiv_nonneg_iff)
  ultimately show ?thesis using assms
    by (simp add: revision1_def sdiv_nonneg uint64_id)
qed

lemma revision2_pos:
  assumes "1 \<le> k" "int i < 2 ^ 63"
  shows "revision2 (int i) k = int i div k + 1000000"
proof -
  have "int i div k \<le> int i div 1" using assms(1) by (intro zdiv_mono2) simp_all
  then have "int i div k \<le> int i" by simp
  moreover have "0 \<le> int i div k" using assms(1) by (simp add: pos_imp_zdiv_nonneg_iff)
  ultimately show ?thesis using assms
    by (simp add: revision2_def sdiv_nonneg uint64_id)
qed

lemma commits_after_append:
  assumes "\<And>revision res. \<not> u (StateCommit revision res)"
  shows "commits_after u c (xs @ ys) =
           commits_after u c xs @ commits_after u (c + length (filter u xs)) ys"
  using assms
  by (induction u c xs rule: commits_after.induct) auto

lemma commits_after_SetStates:
  "\<forall>e \<in> set xs. is_SetState e \<Longrightarrow> commits_after u c xs = []"
  by (induction u c xs rule: commits_after.induct) auto

lemma SetStates_no_nonce:
  "\<forall>e \<in> set xs. is_SetState e \<Longrightarrow> filter is_SetNonce xs = []"
  by (induction xs) (auto elim: is_SetState.elims)

lemma SetStates_filter:
  "\<forall>e \<in> set xs. is_SetState e \<Longrightarrow> filter is_SetState xs = xs"
  by (induction xs) auto

lemma spec_slots_SetState:
  "\<forall>e \<in> set (fst (draw_each lo hi (spec_slot L key i a) r)). is_SetState e"
  by (rule draw_each_all) (simp add: spec_slot_def split_beta)

lemma draw_each_length:
  assumes "\<And>j r. length (fst (g j r)) = w"
  shows "length (fst (draw_each lo hi g r)) = w * (hi - lo)"
  using assms
proof (induction lo hi g r rule: draw_each.induct)
  case (1 i hi g r)
  show ?case
  proof (cases "i < hi")
    case True
    have "length (fst (draw_each (Suc i) hi g (snd (g i r)))) = w * (hi - Suc i)"
      using "1.IH" [OF True refl, of "fst (g i r)" "snd (g i r)"] "1.prems" by simp
    moreover have "fst (draw_each i hi g r) =
        fst (g i r) @ fst (draw_each (Suc i) hi g (snd (g i r)))"
      using True by (simp add: draw_each_step split_beta)
    moreover have "w + w * (hi - Suc i) = w * (hi - i)"
      using True by (metis Suc_diff_Suc mult_Suc_right)
    ultimately show ?thesis using "1.prems" [of i r] by simp
  next
    case False
    then show ?thesis by (simp add: draw_each_done)
  qed
qed

lemma spec_mod_account_SetState:
  "\<forall>e \<in> set (fst (spec_mod_account L key n as perm i r)). is_SetState e"
  unfolding spec_mod_account_def
  by (rule draw_each_all) (simp add: spec_mod_slot_def split_beta)

lemma spec_mod_account_length:
  "length (fst (spec_mod_account L key n as perm i r)) = 500"
  unfolding spec_mod_account_def
  using draw_each_length [of "spec_mod_slot L key n (perm ! i) (as ! nat (perm ! i))" 1 0 500 r]
  by (simp add: spec_mod_slot_def split_beta)

lemma for_loop_commits:
  fixes s :: "('r, 's) vars"
  assumes u: "\<And>revision res. \<not> u (StateCommit revision res)"
    and step: "\<And>i t. i < hi \<Longrightarrow>
       (case body i t of
          Inl e \<Rightarrow> True
        | Inr t' \<Rightarrow> \<exists>es. out t' = out t @ es \<and> length (filter u es) = w \<and>
            (\<forall>c. commits_after u c es = (if P i then [(c + w, f i)] else [])))"
  shows "case for_loop 0 hi body s of
           Inl e \<Rightarrow> True
         | Inr s' \<Rightarrow> \<exists>es. out s' = out s @ es \<and>
             commits_after u 0 es = map (\<lambda>i. (w * (i + 1), f i)) (filter P [0..<hi])"
proof -
  define I where "I = (\<lambda>i (t :: ('r, 's) vars). \<exists>es. out t = out s @ es \<and>
     length (filter u es) = w * i \<and>
     commits_after u 0 es = map (\<lambda>i. (w * (i + 1), f i)) (filter P [0..<i]))"
  have start: "I 0 s" by (simp add: I_def)
  have "case for_loop 0 hi body s of Inl e \<Rightarrow> True | Inr s' \<Rightarrow> I hi s'"
  proof (rule for_loop_rule [of I, OF start])
    fix i and t :: "('r, 's) vars" assume i: "i < hi" and It: "I i t"
    from It obtain es where es: "out t = out s @ es" "length (filter u es) = w * i"
      "commits_after u 0 es = map (\<lambda>i. (w * (i + 1), f i)) (filter P [0..<i])"
      by (auto simp: I_def)
    show "case body i t of Inl e \<Rightarrow> True | Inr s' \<Rightarrow> I (Suc i) s'"
    proof (cases "body i t")
      case (Inl e)
      then show ?thesis by simp
    next
      case (Inr t')
      with step [OF i, of t] obtain bs where bs: "out t' = out t @ bs"
        "length (filter u bs) = w"
        "\<And>c. commits_after u c bs = (if P i then [(c + w, f i)] else [])"
        by auto
      have "out t' = out s @ (es @ bs)" using es(1) bs(1) by simp
      moreover have "length (filter u (es @ bs)) = w * Suc i" using es(2) bs(2) by simp
      moreover have "commits_after u 0 (es @ bs) =
          map (\<lambda>i. (w * (i + 1), f i)) (filter P [0..<Suc i])"
        using es(2,3) bs(3) [of "w * i"] by (simp add: commits_after_append [where u = u, OF u])
      ultimately have "I (Suc i) t'" unfolding I_def by blast
      with Inr show ?thesis by simp
    qed
  qed simp
  then show ?thesis unfolding I_def by (auto split: sum.splits)
qed

lemma progress1_commits [simp]:
  "commits_after u c (progress1 fl i) = []" "filter is_SetNonce (progress1 fl i) = []"
  by (simp_all add: progress1_def)

lemma progress2_commits [simp]:
  "commits_after u c (progress2 m i) = []" "filter is_SetState (progress2 m i) = []"
  by (simp_all add: progress2_def)

lemma create_account_Intn_panic:
  assumes "\<not> 0 < wrap_int64 (nSlots fl * 2)"
  shows "\<exists>t'. create_account L S v fl i t = Inl (Panicked ''invalid argument to Intn'', t') \<and>
     out t' = out t @ [SetBalance (account_addr L (int i)) (10 ^ 18),
                       SetNonce (account_addr L (int i)) (uint64 (int i))] \<and>
     currentRoot t' = currentRoot t"
  using assms by (simp add: create_account_def rand_Intn_def Let_def)

lemma create_account_commits:
  fixes t :: "('r, 's) vars"
  assumes k: "1 \<le> kCommit fl" and i: "int i < 2 ^ 63"
  shows "case create_account L S v fl i t of
           Inl e \<Rightarrow> True
         | Inr t' \<Rightarrow> \<exists>es. out t' = out t @ es \<and> length (filter is_SetNonce es) = 1 \<and>
             (\<forall>c. commits_after is_SetNonce c es =
                (if (int i + 1) mod kCommit fl = 0 \<or> int i + 1 = nAccounts fl
                 then [(c + 1, int i div kCommit fl)] else []))"
proof (cases "0 < wrap_int64 (nSlots fl * 2)")
  case False
  from create_account_Intn_panic [OF this, of L S v i t] show ?thesis by auto
next
  case True
  define slots where "slots =
       fst (draw_each 0 (nat (fst (Intn L (rnd t) (wrap_int64 (nSlots fl * 2)))))
              (spec_slot L (slot_key L v) (int i) (account_addr L (int i)))
              (snd (Intn L (rnd t) (wrap_int64 (nSlots fl * 2)))))"
  define pre where "pre = SetBalance (account_addr L (int i)) (10 ^ 18) #
       SetNonce (account_addr L (int i)) (uint64 (int i)) # slots @ progress1 fl i"
  obtain st5 where st5:
    "create_account L S v fl i t =
       (case at_boundary (int i) (kCommit fl) (nAccounts fl) of
          None \<Rightarrow> Inl (Panicked ''integer divide by zero'', st5)
        | Some False \<Rightarrow> Inr st5
        | Some True \<Rightarrow>
            commit_batch S (revision1 (int i) (kCommit fl))
              MsgCommitFailed MsgTrieCommitFailed
              (MsgBatch (int i sdiv kCommit fl + 1)) st5)"
    "out st5 = out t @ pre"
    using create_account_eq [OF True, of L S v i t] unfolding pre_def slots_def by metis
  have sl: "\<forall>e \<in> set slots. is_SetState e"
    unfolding slots_def by (rule spec_slots_SetState)
  have n1: "length (filter is_SetNonce pre) = 1"
    using SetStates_no_nonce [OF sl] by (simp add: pre_def)
  have c0: "\<And>c. commits_after is_SetNonce c pre = []"
    using commits_after_SetStates [OF sl]
    by (simp add: pre_def commits_after_append)
  have bnd: "at_boundary (int i) (kCommit fl) (nAccounts fl) =
      Some ((int i + 1) mod kCommit fl = 0 \<or> int i + 1 = nAccounts fl)"
    using k by (rule at_boundary_pos)
  have rv: "revision1 (int i) (kCommit fl) = int i div kCommit fl"
    using k i by (rule revision1_pos)
  show ?thesis
  proof (cases "(int i + 1) mod kCommit fl = 0 \<or> int i + 1 = nAccounts fl")
    case False
    with st5 bnd have "create_account L S v fl i t = Inr st5" by simp
    with st5(2) n1 c0 False show ?thesis by auto
  next
    case B: True
    show ?thesis
    proof (cases "create_account L S v fl i t")
      case (Inl e)
      then show ?thesis by simp
    next
      case (Inr t')
      with st5(1) bnd B have
        "commit_batch S (int i div kCommit fl) MsgCommitFailed MsgTrieCommitFailed
           (MsgBatch (int i sdiv kCommit fl + 1)) st5 = Inr t'" by (simp add: rv)
      from commit_batch_Inr [OF this] obtain root where
        c: "out t' = out st5 @ [StateCommit (int i div kCommit fl) (Inr root),
              TrieCommit root None, Print (MsgBatch (int i sdiv kCommit fl + 1) root),
              StateNew root]" by auto
      let ?cm = "[StateCommit (int i div kCommit fl) (Inr root),
              TrieCommit root None, Print (MsgBatch (int i sdiv kCommit fl + 1) root),
              StateNew root]"
      have "out t' = out t @ (pre @ ?cm)" using c st5(2) by simp
      moreover have "length (filter is_SetNonce (pre @ ?cm)) = 1" using n1 by simp
      moreover have "\<And>c. commits_after is_SetNonce c (pre @ ?cm) = [(c + 1, int i div kCommit fl)]"
        using c0 n1 by (simp add: commits_after_append)
      ultimately show ?thesis using Inr B by auto
    qed
  qed
qed

lemma modify_account_Inr:
  assumes "modify_account L S v fl m perm i t = Inr t'"
  shows "i < length perm \<and> 0 \<le> perm ! i \<and> nat (perm ! i) < length (addrs t) \<and> 0 < nSlots fl"
proof -
  have 1: "i < length perm" using assms by (auto simp: modify_account_def split: if_splits)
  have 2: "0 \<le> perm ! i \<and> nat (perm ! i) < length (addrs t)"
    using assms 1 by (auto simp: modify_account_def Let_def split: if_splits)
  have 3: "0 < nSlots fl"
  proof (rule ccontr)
    assume "\<not> 0 < nSlots fl"
    then have "nSlots fl \<le> 0" by simp
    from modify_slots_panic [OF this, where L = L and S = S and v = v
        and accountIdx = "perm ! i" and addr = "addrs t ! nat (perm ! i)" and st = t]
      assms 1 2 show False
      by (simp add: modify_account_def Let_def)
  qed
  from 1 2 3 show ?thesis by simp
qed

lemma modify_account_commits:
  fixes t :: "('r, 's) vars"
  assumes k: "1 \<le> kCommit fl" and i: "int i < 2 ^ 63"
  shows "case modify_account L S v fl m perm i t of
           Inl e \<Rightarrow> True
         | Inr t' \<Rightarrow> \<exists>es. out t' = out t @ es \<and> length (filter is_SetState es) = 500 \<and>
             (\<forall>c. commits_after is_SetState c es =
                (if (int i + 1) mod kCommit fl = 0 \<or> int i + 1 = m
                 then [(c + 500, int i div kCommit fl + 1000000)] else []))"
proof (cases "modify_account L S v fl m perm i t")
  case (Inl e)
  then show ?thesis by simp
next
  case (Inr t')
  from modify_account_Inr [OF Inr] have pre: "0 < nSlots fl" "i < length perm"
    "0 \<le> perm ! i" "nat (perm ! i) < length (addrs t)" by simp_all
  define ms where "ms = fst (spec_mod_account L (slot_key L v) (nSlots fl) (addrs t) perm i (rnd t))"
  obtain st2 where st2:
    "modify_account L S v fl m perm i t =
       (case at_boundary (int i) (kCommit fl) m of
          None \<Rightarrow> Inl (Panicked ''integer divide by zero'', st2)
        | Some False \<Rightarrow> Inr st2
        | Some True \<Rightarrow>
            commit_batch S (revision2 (int i) (kCommit fl))
              MsgModCommitFailed MsgModTrieCommitFailed (\<lambda>_. MsgModBatch) st2)"
    "out st2 = out t @ ms @ progress2 m i"
    using modify_account_eq [OF pre, where L = L and S = S and v = v and m = m]
    unfolding ms_def by metis
  have sl: "\<forall>e \<in> set ms. is_SetState e"
    unfolding ms_def by (rule spec_mod_account_SetState)
  have len: "length ms = 500" unfolding ms_def by (rule spec_mod_account_length)
  have n1: "length (filter is_SetState (ms @ progress2 m i)) = 500"
    using SetStates_filter [OF sl] len by simp
  have c0: "\<And>c. commits_after is_SetState c (ms @ progress2 m i) = []"
    using commits_after_SetStates [OF sl] by (simp add: commits_after_append)
  have bnd: "at_boundary (int i) (kCommit fl) m =
      Some ((int i + 1) mod kCommit fl = 0 \<or> int i + 1 = m)"
    using k by (rule at_boundary_pos)
  have rv: "revision2 (int i) (kCommit fl) = int i div kCommit fl + 1000000"
    using k i by (rule revision2_pos)
  show ?thesis
  proof (cases "(int i + 1) mod kCommit fl = 0 \<or> int i + 1 = m")
    case False
    with st2 bnd have "modify_account L S v fl m perm i t = Inr st2" by simp
    with st2(2) n1 c0 False show ?thesis by auto
  next
    case B: True
    with st2(1) bnd Inr have
      "commit_batch S (int i div kCommit fl + 1000000) MsgModCommitFailed MsgModTrieCommitFailed
         (\<lambda>_. MsgModBatch) st2 = Inr t'" by (simp add: rv)
    from commit_batch_Inr [OF this] obtain root where
      c: "out t' = out st2 @ [StateCommit (int i div kCommit fl + 1000000) (Inr root),
            TrieCommit root None, Print MsgModBatch, StateNew root]" by auto
    let ?cm = "[StateCommit (int i div kCommit fl + 1000000) (Inr root),
            TrieCommit root None, Print MsgModBatch, StateNew root]"
    have "out t' = out t @ ((ms @ progress2 m i) @ ?cm)" using c st2(2) by simp
    moreover have "length (filter is_SetState ((ms @ progress2 m i) @ ?cm)) = 500"
      using n1 by simp
    moreover have "\<And>c. commits_after is_SetState c ((ms @ progress2 m i) @ ?cm) =
        [(c + 500, int i div kCommit fl + 1000000)]"
      using c0 n1 by (subst commits_after_append) simp_all
    ultimately show ?thesis using Inr B by auto
  qed
qed

lemma phase_end_commits [simp]:
  "commits_after u c (phase1_end v st) = []" "commits_after u c (phase2_end v st) = []"
  by (simp_all add: phase1_end_def phase2_end_def split: backend.splits)

lemma phase1_Inr:
  assumes "phase1 L S v fl st0 = Inr st1"
  obtains st3 where "0 \<le> nAccounts fl"
    "for_loop 0 (nat (nAccounts fl)) (create_account L S v fl) (phase1_start L fl st0) = Inr st3"
    "st1 = st3\<lparr>out := out st3 @ phase1_end v st3\<rparr>"
  using assms by (auto simp: phase1_eq split: if_splits sum.splits)

lemma phase2_Inr:
  assumes "phase2 L S v fl now st0 = Inr st1"
  obtains st3 where
    "for_loop 0 (nat (clamp_modify fl))
       (modify_account L S v fl (clamp_modify fl) (phase2_perm L fl now))
       (phase2_start L fl now st0) = Inr st3"
    "st1 = st3\<lparr>out := out st3 @ phase2_end v st3\<rparr>"
  using assms by (auto simp: phase2_eq split: sum.splits)

lemma phase1_commits:
  fixes st0 :: "('r, 's) vars"
  assumes k: "1 \<le> kCommit fl" and n: "nAccounts fl \<le> 2 ^ 63"
    and run: "phase1 L S v fl st0 = Inr st1"
  shows "commits_after is_SetNonce 0 (events_since st0 st1) =
     map (\<lambda>i. (i + 1, int i div kCommit fl))
       (filter (\<lambda>i. (int i + 1) mod kCommit fl = 0 \<or> int i + 1 = nAccounts fl)
          [0..<nat (nAccounts fl)])"
proof -
  from run obtain st3 where
    loop: "for_loop 0 (nat (nAccounts fl)) (create_account L S v fl) (phase1_start L fl st0) = Inr st3"
    and st1: "st1 = st3\<lparr>out := out st3 @ phase1_end v st3\<rparr>"
    by (rule phase1_Inr)
  have "case for_loop 0 (nat (nAccounts fl)) (create_account L S v fl) (phase1_start L fl st0) of
          Inl e \<Rightarrow> True
        | Inr s' \<Rightarrow> \<exists>es. out s' = out (phase1_start L fl st0) @ es \<and>
            commits_after is_SetNonce 0 es =
              map (\<lambda>i. (1 * (i + 1), int i div kCommit fl))
                (filter (\<lambda>i. (int i + 1) mod kCommit fl = 0 \<or> int i + 1 = nAccounts fl)
                   [0..<nat (nAccounts fl)])"
  proof (rule for_loop_commits)
    fix i and t :: "('r, 's) vars" assume "i < nat (nAccounts fl)"
    then have "int i < 2 ^ 63" using n by simp
    from create_account_commits [OF k this, where L = L and S = S and v = v and t = t]
    show "case create_account L S v fl i t of
        Inl e \<Rightarrow> True
      | Inr t' \<Rightarrow> \<exists>es. out t' = out t @ es \<and> length (filter is_SetNonce es) = 1 \<and>
          (\<forall>c. commits_after is_SetNonce c es =
             (if (int i + 1) mod kCommit fl = 0 \<or> int i + 1 = nAccounts fl
              then [(c + 1, int i div kCommit fl)] else []))" .
  qed simp
  with loop obtain es where es: "out st3 = out (phase1_start L fl st0) @ es"
    "commits_after is_SetNonce 0 es =
       map (\<lambda>i. (i + 1, int i div kCommit fl))
         (filter (\<lambda>i. (int i + 1) mod kCommit fl = 0 \<or> int i + 1 = nAccounts fl)
            [0..<nat (nAccounts fl)])"
    by auto
  have "events_since st0 st1 =
      Print (MsgPhase1 (nAccounts fl) (nSlots fl) (kCommit fl)) # es @ phase1_end v st3"
    using es(1) by (simp add: events_since_def st1)
  then show ?thesis using es(2) by (simp add: commits_after_append)
qed

lemma phase2_commits:
  fixes st0 :: "('r, 's) vars"
  assumes k: "1 \<le> kCommit fl" and n: "nAccounts fl \<le> 2 ^ 63"
    and run: "phase2 L S v fl now st0 = Inr st1"
  shows "commits_after is_SetState 0 (events_since st0 st1) =
     map (\<lambda>i. (500 * (i + 1), int i div kCommit fl + 1000000))
       (filter (\<lambda>i. (int i + 1) mod kCommit fl = 0 \<or> int i + 1 = clamp_modify fl)
          [0..<nat (clamp_modify fl)])"
proof -
  from run obtain st3 where
    loop: "for_loop 0 (nat (clamp_modify fl))
       (modify_account L S v fl (clamp_modify fl) (phase2_perm L fl now))
       (phase2_start L fl now st0) = Inr st3"
    and st1: "st1 = st3\<lparr>out := out st3 @ phase2_end v st3\<rparr>"
    by (rule phase2_Inr)
  have m: "clamp_modify fl \<le> nAccounts fl" by (simp add: clamp_modify_def)
  have "case for_loop 0 (nat (clamp_modify fl))
          (modify_account L S v fl (clamp_modify fl) (phase2_perm L fl now))
          (phase2_start L fl now st0) of
          Inl e \<Rightarrow> True
        | Inr s' \<Rightarrow> \<exists>es. out s' = out (phase2_start L fl now st0) @ es \<and>
            commits_after is_SetState 0 es =
              map (\<lambda>i. (500 * (i + 1), int i div kCommit fl + 1000000))
                (filter (\<lambda>i. (int i + 1) mod kCommit fl = 0 \<or> int i + 1 = clamp_modify fl)
                   [0..<nat (clamp_modify fl)])"
  proof (rule for_loop_commits)
    fix i and t :: "('r, 's) vars" assume "i < nat (clamp_modify fl)"
    then have "int i < 2 ^ 63" using n m by simp
    from modify_account_commits [OF k this, where L = L and S = S and v = v
        and m = "clamp_modify fl" and perm = "phase2_perm L fl now" and t = t]
    show "case modify_account L S v fl (clamp_modify fl) (phase2_perm L fl now) i t of
        Inl e \<Rightarrow> True
      | Inr t' \<Rightarrow> \<exists>es. out t' = out t @ es \<and> length (filter is_SetState es) = 500 \<and>
          (\<forall>c. commits_after is_SetState c es =
             (if (int i + 1) mod kCommit fl = 0 \<or> int i + 1 = clamp_modify fl
              then [(c + 500, int i div kCommit fl + 1000000)] else []))" .
  qed simp
  with loop obtain es where es: "out st3 = out (phase2_start L fl now st0) @ es"
    "commits_after is_SetState 0 es =
       map (\<lambda>i. (500 * (i + 1), int i div kCommit fl + 1000000))
         (filter (\<lambda>i. (int i + 1) mod kCommit fl = 0 \<or> int i + 1 = clamp_modify fl)
            [0..<nat (clamp_modify fl)])"
    by auto
  have "events_since st0 st1 =
      Print (MsgPhase2 (clamp_modify fl) (kCommit fl)) # es @ phase2_end v st3"
    using es(1) by (simp add: events_since_def st1)
  then show ?thesis using es(2) by (simp add: commits_after_append)
qed


lemma commit_batch_ok:
  assumes "store_never_fails S"
  shows "\<exists>t' root. commit_batch S rv failed trieFailed report st = Inr t' \<and>
     addrs t' = addrs st \<and>
     out t' = out st @ [StateCommit rv (Inr root), TrieCommit root None,
                        Print (report root), StateNew root]"
proof -
  from assms obtain root where r: "fst (StateDB_Commit S (statedb st) rv) = Inr root"
    unfolding store_never_fails_def by blast
  from assms have t: "fst (TrieDB_Commit S (snd (StateDB_Commit S (statedb st) rv)) root) = None"
    unfolding store_never_fails_def by blast
  show ?thesis using r t
    by (cases "StateDB_Commit S (statedb st) rv";
        cases "TrieDB_Commit S (snd (StateDB_Commit S (statedb st) rv)) root")
       (auto simp: commit_batch_eq)
qed

lemma create_account_ok:
  fixes t :: "('r, 's) vars"
  assumes S: "store_never_fails S" and pos: "0 < wrap_int64 (nSlots fl * 2)"
    and k: "kCommit fl \<noteq> 0"
  shows "\<exists>t'. create_account L S v fl i t = Inr t' \<and> length (addrs t') = length (addrs t)"
proof -
  obtain st5 where st5:
    "create_account L S v fl i t =
       (case at_boundary (int i) (kCommit fl) (nAccounts fl) of
          None \<Rightarrow> Inl (Panicked ''integer divide by zero'', st5)
        | Some False \<Rightarrow> Inr st5
        | Some True \<Rightarrow>
            commit_batch S (revision1 (int i) (kCommit fl))
              MsgCommitFailed MsgTrieCommitFailed
              (MsgBatch (int i sdiv kCommit fl + 1)) st5)"
    "addrs st5 = (addrs t)[i := account_addr L (int i)]"
    using create_account_eq [OF pos, where L = L and S = S and v = v and i = i and st = t]
    by metis
  obtain b where b: "at_boundary (int i) (kCommit fl) (nAccounts fl) = Some b"
    using k by (simp add: at_boundary_def)
  show ?thesis
  proof (cases b)
    case False
    with st5 b show ?thesis by simp
  next
    case True
    from commit_batch_ok [OF S, of "revision1 (int i) (kCommit fl)" MsgCommitFailed
        MsgTrieCommitFailed "MsgBatch (int i sdiv kCommit fl + 1)" st5]
    obtain t' where "commit_batch S (revision1 (int i) (kCommit fl))
              MsgCommitFailed MsgTrieCommitFailed
              (MsgBatch (int i sdiv kCommit fl + 1)) st5 = Inr t'" "addrs t' = addrs st5"
      by blast
    with st5 b True show ?thesis by simp
  qed
qed

lemma phase1_finishes:
  fixes st0 :: "('r, 's) vars"
  assumes S: "store_never_fails S" and pos: "0 < wrap_int64 (nSlots fl * 2)"
    and k: "kCommit fl \<noteq> 0" and n: "0 \<le> nAccounts fl"
  shows "\<exists>st1. phase1 L S v fl st0 = Inr st1 \<and> length (addrs st1) = nat (nAccounts fl)"
proof -
  have "case for_loop 0 (nat (nAccounts fl)) (create_account L S v fl) (phase1_start L fl st0) of
          Inl e \<Rightarrow> False
        | Inr s' \<Rightarrow> length (addrs s') = nat (nAccounts fl)"
  proof (rule for_loop_rule [where I = "\<lambda>i t. length (addrs t) = nat (nAccounts fl)"])
    fix i and t :: "('r, 's) vars" assume "length (addrs t) = nat (nAccounts fl)"
    then show "case create_account L S v fl i t of
        Inl e \<Rightarrow> False | Inr s' \<Rightarrow> length (addrs s') = nat (nAccounts fl)"
      using create_account_ok [OF S pos k, of L v i t] by auto
  qed simp_all
  then show ?thesis using n by (auto simp: phase1_eq split: sum.splits)
qed

lemma modify_account_ok:
  fixes t :: "('r, 's) vars"
  assumes S: "store_never_fails S" and pos: "0 < nSlots fl" and k: "kCommit fl \<noteq> 0"
    and i: "i < length perm" and idx: "0 \<le> perm ! i" "nat (perm ! i) < length (addrs t)"
  shows "\<exists>t'. modify_account L S v fl m perm i t = Inr t' \<and> addrs t' = addrs t"
proof -
  obtain st2 where st2:
    "modify_account L S v fl m perm i t =
       (case at_boundary (int i) (kCommit fl) m of
          None \<Rightarrow> Inl (Panicked ''integer divide by zero'', st2)
        | Some False \<Rightarrow> Inr st2
        | Some True \<Rightarrow>
            commit_batch S (revision2 (int i) (kCommit fl))
              MsgModCommitFailed MsgModTrieCommitFailed (\<lambda>_. MsgModBatch) st2)"
    "addrs st2 = addrs t"
    using modify_account_eq [OF pos i idx, where L = L and S = S and v = v and m = m]
    by metis
  obtain b where b: "at_boundary (int i) (kCommit fl) m = Some b"
    using k by (simp add: at_boundary_def)
  show ?thesis
  proof (cases b)
    case False
    with st2 b show ?thesis by simp
  next
    case True
    from commit_batch_ok [OF S, of "revision2 (int i) (kCommit fl)" MsgModCommitFailed
        MsgModTrieCommitFailed "\<lambda>_. MsgModBatch" st2]
    obtain t' where "commit_batch S (revision2 (int i) (kCommit fl))
              MsgModCommitFailed MsgModTrieCommitFailed (\<lambda>_. MsgModBatch) st2 = Inr t'"
      "addrs t' = addrs st2"
      by blast
    with st2 b True show ?thesis by simp
  qed
qed

lemma phase2_finishes:
  fixes st0 :: "('r, 's) vars"
  assumes S: "store_never_fails S" and pos: "0 < nSlots fl" and k: "kCommit fl \<noteq> 0"
    and len: "nat (clamp_modify fl) \<le> length (phase2_perm L fl now)"
    and idx: "\<And>i. i < nat (clamp_modify fl) \<Longrightarrow>
       0 \<le> phase2_perm L fl now ! i \<and> nat (phase2_perm L fl now ! i) < length (addrs st0)"
  shows "\<exists>st1. phase2 L S v fl now st0 = Inr st1"
proof -
  have "case for_loop 0 (nat (clamp_modify fl))
          (modify_account L S v fl (clamp_modify fl) (phase2_perm L fl now))
          (phase2_start L fl now st0) of
          Inl e \<Rightarrow> False
        | Inr s' \<Rightarrow> addrs s' = addrs st0"
  proof (rule for_loop_rule [where I = "\<lambda>i t. addrs t = addrs st0"])
    fix i and t :: "('r, 's) vars"
    assume i: "i < nat (clamp_modify fl)" and a: "addrs t = addrs st0"
    have "i < length (phase2_perm L fl now)" using i len by simp
    moreover have "0 \<le> phase2_perm L fl now ! i"
      "nat (phase2_perm L fl now ! i) < length (addrs t)"
      using idx [OF i] a by simp_all
    ultimately show "case modify_account L S v fl (clamp_modify fl) (phase2_perm L fl now) i t of
        Inl e \<Rightarrow> False | Inr s' \<Rightarrow> addrs s' = addrs st0"
      using modify_account_ok [OF S pos k, of i "phase2_perm L fl now" t L v "clamp_modify fl"] a
      by auto
  qed simp_all
  then show ?thesis by (auto simp: phase2_eq split: sum.splits)
qed

lemma test_store_never_fails: "store_never_fails (test_store 0)"
  by (simp add: store_never_fails_def test_store_def)

lemma test_perm:
  "phase2_perm test_lib fl now = map int (rev [0..<nat (nAccounts fl)])"
  by (simp add: phase2_perm_def test_lib_def)

lemma test_phase2_finishes:
  fixes st0 :: "(nat, nat) vars"
  assumes pos: "0 < nSlots fl" and k: "kCommit fl \<noteq> 0"
    and a: "length (addrs st0) = nat (nAccounts fl)"
  shows "\<exists>st1. phase2 test_lib (test_store 0) v fl now st0 = Inr st1"
proof (rule phase2_finishes [OF test_store_never_fails pos k])
  have "clamp_modify fl \<le> nAccounts fl" by (simp add: clamp_modify_def)
  then have m: "nat (clamp_modify fl) \<le> nat (nAccounts fl)" by simp
  show "nat (clamp_modify fl) \<le> length (phase2_perm test_lib fl now)"
    using m by (simp add: test_perm)
  fix i assume "i < nat (clamp_modify fl)"
  with m have i: "i < nat (nAccounts fl)" by simp
  then have "rev [0..<nat (nAccounts fl)] ! i < nat (nAccounts fl)"
    by (simp add: rev_nth)
  with i show "0 \<le> phase2_perm test_lib fl now ! i \<and>
      nat (phase2_perm test_lib fl now ! i) < length (addrs st0)"
    by (simp add: test_perm a)
qed

lemma commit_revisions_eq: "commit_revisions es = map snd (commits_after u c es)"
  by (induction u c es rule: commits_after.induct) simp_all

lemma last_vars_simps [simp]:
  "last_vars (Inl (f, st)) = st" "last_vars (Inr st) = st"
  by (simp_all add: last_vars_def)

lemma for_loop_prefix:
  fixes s :: "('r, 's) vars"
  assumes "\<And>i t. lo \<le> i \<Longrightarrow> i < hi \<Longrightarrow> prefix (out t) (out (last_vars (body i t)))"
  shows "prefix (out s) (out (last_vars (for_loop lo hi body s)))"
proof (cases "lo \<le> hi")
  case False
  then show ?thesis by (simp add: for_loop_done)
next
  case True
  have "case for_loop lo hi body s of
          Inl e \<Rightarrow> prefix (out s) (out (snd e))
        | Inr s' \<Rightarrow> prefix (out s) (out s')"
  proof (rule for_loop_rule [where I = "\<lambda>i t. prefix (out s) (out t)", OF _ True])
    fix i and t :: "('r, 's) vars"
    assume "lo \<le> i" "i < hi" and p: "prefix (out s) (out t)"
    from assms [OF this(1,2), of t] p
    show "case body i t of Inl e \<Rightarrow> prefix (out s) (out (snd e))
       | Inr s' \<Rightarrow> prefix (out s) (out s')"
      by (auto simp: last_vars_def split: sum.splits)
  qed simp
  then show ?thesis by (auto simp: last_vars_def split: sum.splits)
qed

lemma commit_batch_prefix:
  "prefix (out st) (out (last_vars (commit_batch S rv failed trieFailed report st)))"
  by (simp add: commit_batch_eq split: prod.splits sum.splits option.splits)

lemma create_slot_prefix:
  "prefix (out st) (out (last_vars (create_slot L S v i addr j st)))"
  by (simp add: create_slot_eq Let_def split_beta)

lemma modify_slot_prefix:
  "prefix (out st) (out (last_vars (modify_slot L S v fl a addr j st)))"
  by (simp add: modify_slot_eq Let_def split_beta)

lemma prefix_emit: "prefix (out s) (out t) \<Longrightarrow> prefix (out s) (out (emit e t))"
  by (auto simp: prefix_def)

lemma create_account_prefix:
  fixes st :: "('r, 's) vars"
  shows "prefix (out st) (out (last_vars (create_account L S v fl i st)))"
proof (cases "0 < wrap_int64 (nSlots fl * 2)")
  case False
  from create_account_Intn_panic [OF this, of L S v i st] show ?thesis by auto
next
  case True
  obtain st5 where st5:
    "create_account L S v fl i st =
       (case at_boundary (int i) (kCommit fl) (nAccounts fl) of
          None \<Rightarrow> Inl (Panicked ''integer divide by zero'', st5)
        | Some False \<Rightarrow> Inr st5
        | Some True \<Rightarrow>
            commit_batch S (revision1 (int i) (kCommit fl))
              MsgCommitFailed MsgTrieCommitFailed
              (MsgBatch (int i sdiv kCommit fl + 1)) st5)"
    "prefix (out st) (out st5)"
    using create_account_eq [OF True, where L = L and S = S and v = v and i = i and st = st]
    by (metis prefixI)
  show ?thesis
    using st5 commit_batch_prefix [of st5 S "revision1 (int i) (kCommit fl)" MsgCommitFailed
        MsgTrieCommitFailed "MsgBatch (int i sdiv kCommit fl + 1)"]
    by (auto split: option.splits bool.splits intro: prefix_order.trans)
qed

lemma modify_account_prefix:
  fixes st :: "('r, 's) vars"
  shows "prefix (out st) (out (last_vars (modify_account L S v fl m perm i st)))"
proof (cases "i < length perm \<and> 0 \<le> perm ! i \<and> nat (perm ! i) < length (addrs st)")
  case False
  then show ?thesis by (auto simp: modify_account_def Let_def)
next
  case idx: True
  show ?thesis
  proof (cases "0 < nSlots fl")
    case False
    then have "nSlots fl \<le> 0" by simp
    from modify_slots_panic [OF this, where L = L and S = S and v = v
        and accountIdx = "perm ! i" and addr = "addrs st ! nat (perm ! i)" and st = st] idx
    show ?thesis by (simp add: modify_account_def Let_def)
  next
    case True
    obtain st2 where st2:
      "modify_account L S v fl m perm i st =
         (case at_boundary (int i) (kCommit fl) m of
            None \<Rightarrow> Inl (Panicked ''integer divide by zero'', st2)
          | Some False \<Rightarrow> Inr st2
          | Some True \<Rightarrow>
              commit_batch S (revision2 (int i) (kCommit fl))
                MsgModCommitFailed MsgModTrieCommitFailed (\<lambda>_. MsgModBatch) st2)"
      "prefix (out st) (out st2)"
      using modify_account_eq [OF True, where L = L and S = S and v = v and m = m
          and perm = perm and i = i and st = st] idx
      by (metis prefixI)
    show ?thesis
      using st2 commit_batch_prefix [of st2 S "revision2 (int i) (kCommit fl)" MsgModCommitFailed
          MsgModTrieCommitFailed "\<lambda>_. MsgModBatch"]
      by (auto split: option.splits bool.splits intro: prefix_order.trans)
  qed
qed

lemma phase1_prefix:
  fixes st :: "('r, 's) vars"
  shows "prefix (out st) (out (last_vars (phase1 L S v fl st)))"
proof -
  have "prefix (out (phase1_start L fl st))
      (out (last_vars (for_loop 0 (nat (nAccounts fl)) (create_account L S v fl)
                         (phase1_start L fl st))))"
    by (rule for_loop_prefix) (rule create_account_prefix)
  moreover have "prefix (out st) (out (phase1_start L fl st))" by simp
  ultimately have "prefix (out st)
      (out (last_vars (for_loop 0 (nat (nAccounts fl)) (create_account L S v fl)
                         (phase1_start L fl st))))"
    by (rule prefix_order.trans [rotated])
  then show ?thesis
    by (auto simp: phase1_eq last_vars_def prefix_def split: sum.splits)
qed

lemma phase2_prefix:
  fixes st :: "('r, 's) vars"
  shows "prefix (out st) (out (last_vars (phase2 L S v fl now st)))"
proof -
  have "prefix (out (phase2_start L fl now st))
      (out (last_vars (for_loop 0 (nat (clamp_modify fl))
             (modify_account L S v fl (clamp_modify fl) (phase2_perm L fl now))
             (phase2_start L fl now st))))"
    by (rule for_loop_prefix) (rule modify_account_prefix)
  moreover have "prefix (out st) (out (phase2_start L fl now st))" by simp
  ultimately have "prefix (out st)
      (out (last_vars (for_loop 0 (nat (clamp_modify fl))
             (modify_account L S v fl (clamp_modify fl) (phase2_perm L fl now))
             (phase2_start L fl now st))))"
    by (rule prefix_order.trans [rotated])
  then show ?thesis
    by (auto simp: phase2_eq last_vars_def prefix_def split: sum.splits)
qed

lemma events_since_prefix:
  "prefix (out s) (out t) \<Longrightarrow> out t = out s @ events_since s t"
  by (auto simp: prefix_def events_since_def)

lemma main_eq:
  "main L S v fl now =
     (case OpenStore S (dbPath fl) of
        Inl err \<Rightarrow>
          \<lparr>stopped = Some Returned,
           trace = (if clearDB fl
                    then [Print (MsgCleaning (dbPath fl)), RemoveAll (dbPath fl)] else []) @
                   [Print (MsgInitDB (dbPath fl)), Print (MsgOpenFailed err)],
           head_root = zeroHash\<rparr>
      | Inr s0 \<Rightarrow>
         (case phase1 L S v fl (main_start L fl s0) of
            Inl (f, st) \<Rightarrow> finish (Some f) st
          | Inr st1 \<Rightarrow>
             (case phase2 L S v fl now st1 of
                Inl (f, st) \<Rightarrow> finish (Some f) st
              | Inr st2 \<Rightarrow> finish None (emit (Print (MsgFinalReport (dbPath fl))) st2))))"
  by (simp add: main_def main_start_def Let_def split: sum.splits)

lemma plain_not_failed: "plain e \<Longrightarrow> \<not> failed_commit e \<and> \<not> is_final_report e"
  by (cases e rule: plain.cases) simp_all

lemma last_root_append: "last_root d (xs @ ys) = last_root (last_root d xs) ys"
  by (induction d xs rule: last_root.induct) simp_all

lemma last_root_plain: "\<forall>e \<in> set es. plain e \<Longrightarrow> last_root d es = d"
  by (induction d es rule: last_root.induct) simp_all

lemma good_append:
  assumes "good t" and "\<forall>e \<in> set es. plain e"
    and "out t' = out t @ es" and "currentRoot t' = currentRoot t"
  shows "good t'"
  using assms
  by (auto simp: good_def last_root_append last_root_plain dest: plain_not_failed)

lemma SetState_plain: "is_SetState e \<Longrightarrow> plain e"
  by (cases e) simp_all

lemma progress_plain [simp]:
  "\<forall>e \<in> set (progress1 fl i). plain e" "\<forall>e \<in> set (progress2 m i). plain e"
  by (simp_all add: progress1_def progress2_def)

lemma commit_batch_good:
  assumes g: "good st"
    and f: "\<And>err. reports (StateCommit rv (Inl err)) (failed err)"
    and tf: "\<And>root err. reports (TrieCommit root (Some err)) (trieFailed err)"
    and r: "\<And>root. plain (Print (report root))"
  shows "case commit_batch S rv failed trieFailed report st of
           Inl e \<Rightarrow> stopped_well e | Inr t' \<Rightarrow> good t'"
proof (cases "StateDB_Commit S (statedb st) rv")
  case (Pair res s1)
  show ?thesis
  proof (cases res)
    case (Inl err)
    have "\<exists>pre e m. out st @ [StateCommit rv (Inl err), Print (failed err)] = pre @ [e, Print m] \<and>
        failed_commit e \<and> reports e m \<and>
        (\<forall>x \<in> set pre. \<not> failed_commit x \<and> \<not> is_final_report x) \<and>
        currentRoot st = last_root zeroHash pre"
      using g f [of err] unfolding good_def
      by (intro exI [of _ "out st"] exI [of _ "StateCommit rv (Inl err)"]
          exI [of _ "failed err"]) simp
    with Pair Inl show ?thesis
      by (simp add: commit_batch_eq stopped_well_def)
  next
    case (Inr root)
    show ?thesis
    proof (cases "TrieDB_Commit S s1 root")
      case P2: (Pair err s2)
      show ?thesis
      proof (cases err)
        case None
        have "good (st\<lparr>statedb := State_New S s2 root, currentRoot := root,
                     out := out st @ [StateCommit rv (Inr root), TrieCommit root None,
                                      Print (report root), StateNew root]\<rparr>)"
          using g plain_not_failed [OF r [of root]]
          by (simp add: good_def last_root_append)
        with Pair Inr P2 None show ?thesis by (simp add: commit_batch_eq)
      next
        case (Some e)
        have "\<exists>pre x m. out st @ [StateCommit rv (Inr root), TrieCommit root (Some e),
                                  Print (trieFailed e)] = pre @ [x, Print m] \<and>
            failed_commit x \<and> reports x m \<and>
            (\<forall>x \<in> set pre. \<not> failed_commit x \<and> \<not> is_final_report x) \<and>
            currentRoot st = last_root zeroHash pre"
          using g tf [of root e] unfolding good_def
          by (intro exI [of _ "out st @ [StateCommit rv (Inr root)]"]
              exI [of _ "TrieCommit root (Some e)"] exI [of _ "trieFailed e"])
             (simp add: last_root_append)
        with Pair Inr P2 Some show ?thesis
          by (simp add: commit_batch_eq stopped_well_def)
      qed
    qed
  qed
qed

lemma create_account_good:
  fixes t :: "('r, 's) vars"
  assumes g: "good t"
  shows "case create_account L S v fl i t of
           Inl e \<Rightarrow> stopped_well e | Inr t' \<Rightarrow> good t'"
proof (cases "0 < wrap_int64 (nSlots fl * 2)")
  case False
  from create_account_Intn_panic [OF this, of L S v i t] obtain t' where
    t': "create_account L S v fl i t = Inl (Panicked ''invalid argument to Intn'', t')"
    "out t' = out t @ [SetBalance (account_addr L (int i)) (10 ^ 18),
                       SetNonce (account_addr L (int i)) (uint64 (int i))]"
    "currentRoot t' = currentRoot t" by blast
  have "good t'" by (rule good_append [OF g _ t'(2,3)]) simp
  with t'(1) show ?thesis by (simp add: stopped_well_def)
next
  case True
  define slots where "slots =
       fst (draw_each 0 (nat (fst (Intn L (rnd t) (wrap_int64 (nSlots fl * 2)))))
              (spec_slot L (slot_key L v) (int i) (account_addr L (int i)))
              (snd (Intn L (rnd t) (wrap_int64 (nSlots fl * 2)))))"
  define pre where "pre = SetBalance (account_addr L (int i)) (10 ^ 18) #
       SetNonce (account_addr L (int i)) (uint64 (int i)) # slots @ progress1 fl i"
  obtain st5 where st5:
    "create_account L S v fl i t =
       (case at_boundary (int i) (kCommit fl) (nAccounts fl) of
          None \<Rightarrow> Inl (Panicked ''integer divide by zero'', st5)
        | Some False \<Rightarrow> Inr st5
        | Some True \<Rightarrow>
            commit_batch S (revision1 (int i) (kCommit fl))
              MsgCommitFailed MsgTrieCommitFailed
              (MsgBatch (int i sdiv kCommit fl + 1)) st5)"
    "out st5 = out t @ pre" "currentRoot st5 = currentRoot t"
    using create_account_eq [OF True, where L = L and S = S and v = v and i = i and st = t]
    unfolding pre_def slots_def by metis
  have "\<forall>e \<in> set slots. plain e"
    using spec_slots_SetState [of 0 _ L "slot_key L v" "int i" "account_addr L (int i)"]
    unfolding slots_def by (blast intro: SetState_plain)
  then have "\<forall>e \<in> set pre. plain e"
    using progress_plain(1) [of fl i] by (auto simp: pre_def)
  then have g5: "good st5" by (rule good_append [OF g _ st5(2,3)])
  have "case commit_batch S (revision1 (int i) (kCommit fl)) MsgCommitFailed MsgTrieCommitFailed
           (MsgBatch (int i sdiv kCommit fl + 1)) st5 of
          Inl e \<Rightarrow> stopped_well e | Inr t' \<Rightarrow> good t'"
    by (rule commit_batch_good [OF g5]) simp_all
  with st5(1) g5 show ?thesis
    by (auto simp: stopped_well_def split: option.splits bool.splits)
qed

lemma modify_account_good:
  fixes t :: "('r, 's) vars"
  assumes g: "good t"
  shows "case modify_account L S v fl m perm i t of
           Inl e \<Rightarrow> stopped_well e | Inr t' \<Rightarrow> good t'"
proof (cases "i < length perm \<and> 0 \<le> perm ! i \<and> nat (perm ! i) < length (addrs t)")
  case False
  then show ?thesis using g by (auto simp: modify_account_def Let_def stopped_well_def)
next
  case idx: True
  show ?thesis
  proof (cases "0 < nSlots fl")
    case False
    then have "nSlots fl \<le> 0" by simp
    from modify_slots_panic [OF this, where L = L and S = S and v = v
        and accountIdx = "perm ! i" and addr = "addrs t ! nat (perm ! i)" and st = t] idx
    have "modify_account L S v fl m perm i t =
        Inl (Panicked ''invalid argument to Intn'', count_slot v t)"
      by (simp add: modify_account_def Let_def)
    moreover have "good (count_slot v t)" using g by (simp add: good_def)
    ultimately show ?thesis by (simp add: stopped_well_def)
  next
    case True
    define ms where "ms =
      fst (spec_mod_account L (slot_key L v) (nSlots fl) (addrs t) perm i (rnd t))"
    obtain st2 where st2:
      "modify_account L S v fl m perm i t =
         (case at_boundary (int i) (kCommit fl) m of
            None \<Rightarrow> Inl (Panicked ''integer divide by zero'', st2)
          | Some False \<Rightarrow> Inr st2
          | Some True \<Rightarrow>
              commit_batch S (revision2 (int i) (kCommit fl))
                MsgModCommitFailed MsgModTrieCommitFailed (\<lambda>_. MsgModBatch) st2)"
      "out st2 = out t @ ms @ progress2 m i" "currentRoot st2 = currentRoot t"
      using modify_account_eq [OF True, where L = L and S = S and v = v and m = m
          and perm = perm and i = i and st = t] idx
      unfolding ms_def by metis
    have "\<forall>e \<in> set ms. plain e"
      using spec_mod_account_SetState [of L "slot_key L v" "nSlots fl" "addrs t" perm i "rnd t"]
      unfolding ms_def by (blast intro: SetState_plain)
    then have "\<forall>e \<in> set (ms @ progress2 m i). plain e"
      using progress_plain(2) [of m i] by auto
    then have g2: "good st2" by (rule good_append [OF g _ st2(2,3)])
    have "case commit_batch S (revision2 (int i) (kCommit fl)) MsgModCommitFailed
             MsgModTrieCommitFailed (\<lambda>_. MsgModBatch) st2 of
            Inl e \<Rightarrow> stopped_well e | Inr t' \<Rightarrow> good t'"
      by (rule commit_batch_good [OF g2]) simp_all
    with st2(1) g2 show ?thesis
      by (auto simp: stopped_well_def split: option.splits bool.splits)
  qed
qed

lemma phase1_good:
  fixes st :: "('r, 's) vars"
  assumes g: "good st"
  shows "case phase1 L S v fl st of Inl e \<Rightarrow> stopped_well e | Inr t' \<Rightarrow> good t'"
proof -
  have gs: "good (phase1_start L fl st)"
    by (rule good_append [OF g, where es = "[Print (MsgPhase1 (nAccounts fl) (nSlots fl) (kCommit fl))]"])
       simp_all
  have ge: "good (emit (Print (MsgPhase1 (nAccounts fl) (nSlots fl) (kCommit fl))) st)"
    by (rule good_append [OF g, where es = "[Print (MsgPhase1 (nAccounts fl) (nSlots fl) (kCommit fl))]"])
       simp_all
  have "case for_loop 0 (nat (nAccounts fl)) (create_account L S v fl) (phase1_start L fl st) of
          Inl e \<Rightarrow> stopped_well e | Inr s' \<Rightarrow> good s'"
    by (rule for_loop_rule [where I = "\<lambda>i t. good t", OF gs])
       (simp_all add: create_account_good)
  moreover have "\<And>s'. good s' \<Longrightarrow> good (s'\<lparr>out := out s' @ phase1_end v s'\<rparr>)"
    by (rule good_append [where es = "phase1_end v s'" for s'])
       (simp_all add: phase1_end_def split: backend.splits)
  ultimately show ?thesis using ge
    by (auto simp: phase1_eq stopped_well_def split: sum.splits)
qed

lemma phase2_good:
  fixes st :: "('r, 's) vars"
  assumes g: "good st"
  shows "case phase2 L S v fl now st of Inl e \<Rightarrow> stopped_well e | Inr t' \<Rightarrow> good t'"
proof -
  have gs: "good (phase2_start L fl now st)"
    by (rule good_append [OF g, where es = "[Print (MsgPhase2 (clamp_modify fl) (kCommit fl))]"])
       simp_all
  have "case for_loop 0 (nat (clamp_modify fl))
          (modify_account L S v fl (clamp_modify fl) (phase2_perm L fl now))
          (phase2_start L fl now st) of
          Inl e \<Rightarrow> stopped_well e | Inr s' \<Rightarrow> good s'"
    by (rule for_loop_rule [where I = "\<lambda>i t. good t", OF gs])
       (simp_all add: modify_account_good)
  moreover have "\<And>s'. good s' \<Longrightarrow> good (s'\<lparr>out := out s' @ phase2_end v s'\<rparr>)"
    by (rule good_append [where es = "phase2_end v s'" for s'])
       (simp_all add: phase2_end_def split: backend.splits)
  ultimately show ?thesis
    by (auto simp: phase2_eq split: sum.splits)
qed

lemma main_start_good: "good (main_start L fl s0)"
  by (simp add: good_def main_start_def)

lemma appended_allI:
  "out t = out s @ es \<Longrightarrow> \<forall>e \<in> set es. p e \<Longrightarrow> appended_all p s t"
  by (simp add: appended_all_def events_since_def)

lemma appended_allD:
  "appended_all p s t \<Longrightarrow> \<exists>es. out t = out s @ es \<and> (\<forall>e \<in> set es. p e)"
  by (auto simp: appended_all_def events_since_def prefix_def)

lemma appended_all_refl [simp]: "appended_all p s s"
  by (simp add: appended_all_def events_since_def)

lemma appended_all_trans:
  assumes "appended_all p s t" and "appended_all p t u"
  shows "appended_all p s u"
proof -
  from appended_allD [OF assms(1)] obtain es where es: "out t = out s @ es" "\<forall>e \<in> set es. p e"
    by blast
  from appended_allD [OF assms(2)] obtain fs where fs: "out u = out t @ fs" "\<forall>e \<in> set fs. p e"
    by blast
  show ?thesis
    by (rule appended_allI [where es = "es @ fs"]) (use es fs in auto)
qed

lemma appended_all_mono:
  "appended_all p s t \<Longrightarrow> (\<And>e. p e \<Longrightarrow> q e) \<Longrightarrow> appended_all q s t"
  by (auto simp: appended_all_def)

lemma for_loop_appended:
  fixes s :: "('r, 's) vars"
  assumes "\<And>i t. lo \<le> i \<Longrightarrow> i < hi \<Longrightarrow> J t \<Longrightarrow>
     appended_all p t (last_vars (body i t)) \<and> (\<forall>t'. body i t = Inr t' \<longrightarrow> J t')"
    and "J s"
  shows "appended_all p s (last_vars (for_loop lo hi body s))"
proof (cases "lo \<le> hi")
  case False
  then show ?thesis by (simp add: for_loop_done)
next
  case True
  have "case for_loop lo hi body s of
          Inl e \<Rightarrow> appended_all p s (snd e)
        | Inr s' \<Rightarrow> J s' \<and> appended_all p s s'"
  proof (rule for_loop_rule [where I = "\<lambda>i t. J t \<and> appended_all p s t", OF _ True])
    fix i and t :: "('r, 's) vars"
    assume i: "lo \<le> i" "i < hi" and a: "J t \<and> appended_all p s t"
    from assms(1) [OF i, of t] a
    show "case body i t of Inl e \<Rightarrow> appended_all p s (snd e)
       | Inr s' \<Rightarrow> J s' \<and> appended_all p s s'"
      by (auto simp: last_vars_def split: sum.splits intro: appended_all_trans)
  qed (simp add: assms(2))
  then show ?thesis by (auto simp: last_vars_def split: sum.splits)
qed

lemma commit_batch_appended:
  "appended_all (commit_event rv failed trieFailed report) st
     (last_vars (commit_batch S rv failed trieFailed report st))"
proof (cases "StateDB_Commit S (statedb st) rv")
  case (Pair res s1)
  show ?thesis
  proof (cases res)
    case (Inl err)
    with Pair show ?thesis
      by (intro appended_allI [where es = "[StateCommit rv (Inl err), Print (failed err)]"])
         (auto simp: commit_batch_eq commit_event_def)
  next
    case (Inr root)
    show ?thesis
    proof (cases "TrieDB_Commit S s1 root")
      case P2: (Pair err s2)
      show ?thesis
      proof (cases err)
        case None
        with Pair Inr P2 show ?thesis
          by (intro appended_allI [where es = "[StateCommit rv (Inr root), TrieCommit root None,
                Print (report root), StateNew root]"])
             (auto simp: commit_batch_eq commit_event_def)
      next
        case (Some e)
        with Pair Inr P2 show ?thesis
          by (intro appended_allI [where es = "[StateCommit rv (Inr root),
                TrieCommit root (Some e), Print (trieFailed e)]"])
             (auto simp: commit_batch_eq commit_event_def)
      qed
    qed
  qed
qed

lemma spec_value_cases:
  "fst (spec_value L r) = zeroHash \<or> fst (spec_value L r) = zeroHash[31 := 1] \<or>
   (\<exists>r'. fst (spec_value L r) = fst (Read L r' 32))"
  by (auto simp: spec_value_def zeroHash_def small_value split_beta Let_def)

lemma spec_slots_creation:
  "\<forall>e \<in> set (fst (draw_each lo hi (spec_slot L (slot_key L v) (int i) (account_addr L (int i))) r)).
     creation_event L v fl i e"
proof (rule draw_each_all)
  fix j r
  show "\<forall>e \<in> set (fst (spec_slot L (slot_key L v) (int i) (account_addr L (int i)) j r)).
      creation_event L v fl i e"
    using spec_value_cases [of L r]
    by (auto simp: spec_slot_def split_beta creation_event_def)
qed

lemma create_account_appended:
  fixes t :: "('r, 's) vars"
  shows "appended_all (creation_event L v fl i) t (last_vars (create_account L S v fl i t))"
proof (cases "0 < wrap_int64 (nSlots fl * 2)")
  case False
  from create_account_Intn_panic [OF this, of L S v i t] obtain t' where
    t': "create_account L S v fl i t = Inl (Panicked ''invalid argument to Intn'', t')"
    "out t' = out t @ [SetBalance (account_addr L (int i)) (10 ^ 18),
                       SetNonce (account_addr L (int i)) (uint64 (int i))]"
    by blast
  have "appended_all (creation_event L v fl i) t t'"
    by (rule appended_allI [OF t'(2)]) (simp add: creation_event_def)
  with t'(1) show ?thesis by simp
next
  case True
  define slots where "slots =
       fst (draw_each 0 (nat (fst (Intn L (rnd t) (wrap_int64 (nSlots fl * 2)))))
              (spec_slot L (slot_key L v) (int i) (account_addr L (int i)))
              (snd (Intn L (rnd t) (wrap_int64 (nSlots fl * 2)))))"
  define pre where "pre = SetBalance (account_addr L (int i)) (10 ^ 18) #
       SetNonce (account_addr L (int i)) (uint64 (int i)) # slots @ progress1 fl i"
  obtain st5 where st5:
    "create_account L S v fl i t =
       (case at_boundary (int i) (kCommit fl) (nAccounts fl) of
          None \<Rightarrow> Inl (Panicked ''integer divide by zero'', st5)
        | Some False \<Rightarrow> Inr st5
        | Some True \<Rightarrow>
            commit_batch S (revision1 (int i) (kCommit fl))
              MsgCommitFailed MsgTrieCommitFailed
              (MsgBatch (int i sdiv kCommit fl + 1)) st5)"
    "out st5 = out t @ pre"
    using create_account_eq [OF True, where L = L and S = S and v = v and i = i and st = t]
    unfolding pre_def slots_def by metis
  have "\<forall>e \<in> set slots. creation_event L v fl i e"
    unfolding slots_def by (rule spec_slots_creation)
  then have "\<forall>e \<in> set pre. creation_event L v fl i e"
    by (auto simp: pre_def progress1_def creation_event_def)
  then have a5: "appended_all (creation_event L v fl i) t st5"
    by (rule appended_allI [OF st5(2)])
  have "appended_all (creation_event L v fl i) st5
      (last_vars (commit_batch S (revision1 (int i) (kCommit fl)) MsgCommitFailed
         MsgTrieCommitFailed (MsgBatch (int i sdiv kCommit fl + 1)) st5))"
    by (rule appended_all_mono [OF commit_batch_appended]) (simp add: creation_event_def)
  with a5 have "appended_all (creation_event L v fl i) t
      (last_vars (commit_batch S (revision1 (int i) (kCommit fl)) MsgCommitFailed
         MsgTrieCommitFailed (MsgBatch (int i sdiv kCommit fl + 1)) st5))"
    by (rule appended_all_trans)
  with a5 st5(1) show ?thesis
    by (auto split: option.splits bool.splits)
qed

lemma spec_mod_account_modification:
  assumes "i < length perm" "0 \<le> perm ! i" "nat (perm ! i) < length as" "0 < nSlots fl"
  shows "\<forall>e \<in> set (fst (spec_mod_account L (slot_key L v) (nSlots fl) as perm i r)).
     modification_event L v fl as perm i e"
  unfolding spec_mod_account_def
proof (rule draw_each_all)
  fix j r
  show "\<forall>e \<in> set (fst (spec_mod_slot L (slot_key L v) (nSlots fl) (perm ! i)
                          (as ! nat (perm ! i)) j r)).
      modification_event L v fl as perm i e"
    using assms by (auto simp: spec_mod_slot_def split_beta modification_event_def)
qed

lemma modify_account_appended:
  fixes t :: "('r, 's) vars"
  shows "appended_all (modification_event L v fl (addrs t) perm i) t
           (last_vars (modify_account L S v fl (clamp_modify fl) perm i t)) \<and>
         (\<forall>t'. modify_account L S v fl (clamp_modify fl) perm i t = Inr t' \<longrightarrow>
                addrs t' = addrs t)"
proof (cases "i < length perm \<and> 0 \<le> perm ! i \<and> nat (perm ! i) < length (addrs t)")
  case False
  then show ?thesis by (auto simp: modify_account_def Let_def)
next
  case idx: True
  show ?thesis
  proof (cases "0 < nSlots fl")
    case False
    then have "nSlots fl \<le> 0" by simp
    from modify_slots_panic [OF this, where L = L and S = S and v = v
        and accountIdx = "perm ! i" and addr = "addrs t ! nat (perm ! i)" and st = t] idx
    have "modify_account L S v fl (clamp_modify fl) perm i t =
        Inl (Panicked ''invalid argument to Intn'', count_slot v t)"
      by (simp add: modify_account_def Let_def)
    moreover have "appended_all (modification_event L v fl (addrs t) perm i) t (count_slot v t)"
      by (rule appended_allI [where es = "[]"]) simp_all
    ultimately show ?thesis by simp
  next
    case True
    define ms where "ms =
      fst (spec_mod_account L (slot_key L v) (nSlots fl) (addrs t) perm i (rnd t))"
    obtain st2 where st2:
      "modify_account L S v fl (clamp_modify fl) perm i t =
         (case at_boundary (int i) (kCommit fl) (clamp_modify fl) of
            None \<Rightarrow> Inl (Panicked ''integer divide by zero'', st2)
          | Some False \<Rightarrow> Inr st2
          | Some True \<Rightarrow>
              commit_batch S (revision2 (int i) (kCommit fl))
                MsgModCommitFailed MsgModTrieCommitFailed (\<lambda>_. MsgModBatch) st2)"
      "out st2 = out t @ ms @ progress2 (clamp_modify fl) i" "addrs st2 = addrs t"
      using modify_account_eq [OF True, where L = L and S = S and v = v
          and m = "clamp_modify fl" and perm = perm and i = i and st = t] idx
      unfolding ms_def by metis
    have "\<forall>e \<in> set ms. modification_event L v fl (addrs t) perm i e"
      unfolding ms_def using idx True by (intro spec_mod_account_modification) simp_all
    then have "\<forall>e \<in> set (ms @ progress2 (clamp_modify fl) i).
        modification_event L v fl (addrs t) perm i e"
      by (auto simp: progress2_def modification_event_def)
    then have a2: "appended_all (modification_event L v fl (addrs t) perm i) t st2"
      by (rule appended_allI [OF st2(2)])
    have "appended_all (modification_event L v fl (addrs t) perm i) st2
        (last_vars (commit_batch S (revision2 (int i) (kCommit fl)) MsgModCommitFailed
           MsgModTrieCommitFailed (\<lambda>_. MsgModBatch) st2))"
      by (rule appended_all_mono [OF commit_batch_appended]) (simp add: modification_event_def)
    with a2 have a3: "appended_all (modification_event L v fl (addrs t) perm i) t
        (last_vars (commit_batch S (revision2 (int i) (kCommit fl)) MsgModCommitFailed
           MsgModTrieCommitFailed (\<lambda>_. MsgModBatch) st2))"
      by (rule appended_all_trans)
    have ad: "\<And>t'. commit_batch S (revision2 (int i) (kCommit fl)) MsgModCommitFailed
           MsgModTrieCommitFailed (\<lambda>_. MsgModBatch) st2 = Inr t' \<Longrightarrow> addrs t' = addrs t"
      using commit_batch_Inr st2(3) by metis
    from a2 a3 ad st2(1,3) show ?thesis
      by (auto split: option.splits bool.splits)
  qed
qed

lemma phase1_appended:
  fixes st :: "('r, 's) vars"
  shows "appended_all (phase1_event L v fl) st (last_vars (phase1 L S v fl st))"
proof -
  have a0: "appended_all (phase1_event L v fl) st
      (emit (Print (MsgPhase1 (nAccounts fl) (nSlots fl) (kCommit fl))) st)"
    by (rule appended_allI [where es = "[Print (MsgPhase1 (nAccounts fl) (nSlots fl) (kCommit fl))]"])
       (simp_all add: phase1_event_def)
  have a1: "appended_all (phase1_event L v fl) st (phase1_start L fl st)"
    by (rule appended_allI [where es = "[Print (MsgPhase1 (nAccounts fl) (nSlots fl) (kCommit fl))]"])
       (simp_all add: phase1_event_def)
  have "appended_all (phase1_event L v fl) (phase1_start L fl st)
      (last_vars (for_loop 0 (nat (nAccounts fl)) (create_account L S v fl)
                    (phase1_start L fl st)))"
  proof (rule for_loop_appended [where J = "\<lambda>t. True"])
    fix i and t :: "('r, 's) vars" assume "i < nat (nAccounts fl)"
    then have "appended_all (phase1_event L v fl) t (last_vars (create_account L S v fl i t))"
      by (intro appended_all_mono [OF create_account_appended]) (auto simp: phase1_event_def)
    then show "appended_all (phase1_event L v fl) t (last_vars (create_account L S v fl i t)) \<and>
        (\<forall>t'. create_account L S v fl i t = Inr t' \<longrightarrow> True)" by simp
  qed simp
  with a1 have a2: "appended_all (phase1_event L v fl) st
      (last_vars (for_loop 0 (nat (nAccounts fl)) (create_account L S v fl)
                    (phase1_start L fl st)))"
    by (rule appended_all_trans)
  have a3: "\<And>s'. appended_all (phase1_event L v fl) s' (s'\<lparr>out := out s' @ phase1_end v s'\<rparr>)"
    by (rule appended_allI [where es = "phase1_end v s'" for s'])
       (auto simp: phase1_end_def phase1_event_def split: backend.splits)
  show ?thesis
  proof (cases "nAccounts fl < 0")
    case True
    with a0 show ?thesis by (simp add: phase1_eq)
  next
    case False
    show ?thesis
    proof (cases "for_loop 0 (nat (nAccounts fl)) (create_account L S v fl)
                    (phase1_start L fl st)")
      case (Inl e)
      with a2 False show ?thesis by (simp add: phase1_eq)
    next
      case (Inr x2)
      with a2 have "appended_all (phase1_event L v fl) st x2" by simp
      from appended_all_trans [OF this a3 [of x2]] Inr False show ?thesis
        by (simp add: phase1_eq)
    qed
  qed
qed

lemma phase2_appended:
  fixes st :: "('r, 's) vars"
  shows "appended_all (phase2_event L v fl now (addrs st)) st
           (last_vars (phase2 L S v fl now st))"
proof -
  have a1: "appended_all (phase2_event L v fl now (addrs st)) st (phase2_start L fl now st)"
    by (rule appended_allI [where es = "[Print (MsgPhase2 (clamp_modify fl) (kCommit fl))]"])
       (simp_all add: phase2_event_def)
  have "appended_all (phase2_event L v fl now (addrs st)) (phase2_start L fl now st)
      (last_vars (for_loop 0 (nat (clamp_modify fl))
         (modify_account L S v fl (clamp_modify fl) (phase2_perm L fl now))
         (phase2_start L fl now st)))"
  proof (rule for_loop_appended [where J = "\<lambda>t. addrs t = addrs st"])
    fix i and t :: "('r, 's) vars"
    assume i: "i < nat (clamp_modify fl)" and a: "addrs t = addrs st"
    note m = modify_account_appended [of L v fl t "phase2_perm L fl now" i S]
    have "appended_all (phase2_event L v fl now (addrs st)) t
        (last_vars (modify_account L S v fl (clamp_modify fl) (phase2_perm L fl now) i t))"
      using i a by (intro appended_all_mono [OF conjunct1 [OF m]]) (auto simp: phase2_event_def)
    with m a show "appended_all (phase2_event L v fl now (addrs st)) t
        (last_vars (modify_account L S v fl (clamp_modify fl) (phase2_perm L fl now) i t)) \<and>
        (\<forall>t'. modify_account L S v fl (clamp_modify fl) (phase2_perm L fl now) i t = Inr t' \<longrightarrow>
              addrs t' = addrs st)" by simp
  qed simp
  with a1 have a2: "appended_all (phase2_event L v fl now (addrs st)) st
      (last_vars (for_loop 0 (nat (clamp_modify fl))
         (modify_account L S v fl (clamp_modify fl) (phase2_perm L fl now))
         (phase2_start L fl now st)))"
    by (rule appended_all_trans)
  have a3: "\<And>s'. appended_all (phase2_event L v fl now (addrs st)) s'
      (s'\<lparr>out := out s' @ phase2_end v s'\<rparr>)"
    by (rule appended_allI [where es = "phase2_end v s'" for s'])
       (auto simp: phase2_end_def phase2_event_def split: backend.splits)
  show ?thesis
  proof (cases "for_loop 0 (nat (clamp_modify fl))
         (modify_account L S v fl (clamp_modify fl) (phase2_perm L fl now))
         (phase2_start L fl now st)")
    case (Inl e)
    with a2 show ?thesis by (simp add: phase2_eq)
  next
    case (Inr x2)
    with a2 have "appended_all (phase2_event L v fl now (addrs st)) st x2" by simp
    from appended_all_trans [OF this a3 [of x2]] Inr show ?thesis
      by (simp add: phase2_eq)
  qed
qed

lemma create_account_addrs:
  fixes t :: "('r, 's) vars"
  assumes "create_account L S v fl i t = Inr t'"
  shows "addrs t' = (addrs t)[i := account_addr L (int i)]"
proof (cases "0 < wrap_int64 (nSlots fl * 2)")
  case False
  from create_account_Intn_panic [OF this, of L S v i t] assms show ?thesis by auto
next
  case True
  obtain st5 where st5:
    "create_account L S v fl i t =
       (case at_boundary (int i) (kCommit fl) (nAccounts fl) of
          None \<Rightarrow> Inl (Panicked ''integer divide by zero'', st5)
        | Some False \<Rightarrow> Inr st5
        | Some True \<Rightarrow>
            commit_batch S (revision1 (int i) (kCommit fl))
              MsgCommitFailed MsgTrieCommitFailed
              (MsgBatch (int i sdiv kCommit fl + 1)) st5)"
    "addrs st5 = (addrs t)[i := account_addr L (int i)]"
    using create_account_eq [OF True, where L = L and S = S and v = v and i = i and st = t]
    by metis
  have "\<And>t'. commit_batch S (revision1 (int i) (kCommit fl)) MsgCommitFailed
         MsgTrieCommitFailed (MsgBatch (int i sdiv kCommit fl + 1)) st5 = Inr t' \<Longrightarrow>
       addrs t' = addrs st5"
    using commit_batch_Inr by metis
  with st5 assms show ?thesis
    by (auto split: option.splits bool.splits)
qed

lemma phase1_addrs:
  fixes st :: "('r, 's) vars"
  assumes "phase1 L S v fl st = Inr st1"
  shows "addrs st1 = map (\<lambda>i. account_addr L (int i)) [0..<nat (nAccounts fl)]"
proof -
  from assms obtain st3 where
    loop: "for_loop 0 (nat (nAccounts fl)) (create_account L S v fl) (phase1_start L fl st) = Inr st3"
    and st1: "st1 = st3\<lparr>out := out st3 @ phase1_end v st3\<rparr>"
    by (rule phase1_Inr)
  define I where "I = (\<lambda>i (t :: ('r, 's) vars). length (addrs t) = nat (nAccounts fl) \<and>
     take i (addrs t) = map (\<lambda>i. account_addr L (int i)) [0..<i])"
  have "case for_loop 0 (nat (nAccounts fl)) (create_account L S v fl) (phase1_start L fl st) of
          Inl e \<Rightarrow> True | Inr s' \<Rightarrow> I (nat (nAccounts fl)) s'"
  proof (rule for_loop_rule [where I = I])
    show "I 0 (phase1_start L fl st)" by (simp add: I_def)
  next
    fix i and t :: "('r, 's) vars"
    assume i: "i < nat (nAccounts fl)" and It: "I i t"
    show "case create_account L S v fl i t of Inl e \<Rightarrow> True | Inr s' \<Rightarrow> I (Suc i) s'"
    proof (cases "create_account L S v fl i t")
      case (Inl e)
      then show ?thesis by simp
    next
      case (Inr t')
      from create_account_addrs [OF Inr] have a: "addrs t' = (addrs t)[i := account_addr L (int i)]" .
      have "take (Suc i) (addrs t') = take i (addrs t) @ [account_addr L (int i)]"
        using i It by (simp add: a I_def take_Suc_conv_app_nth)
      with It a have "I (Suc i) t'" by (simp add: I_def)
      with Inr show ?thesis by simp
    qed
  qed simp
  with loop have "I (nat (nAccounts fl)) st3" by simp
  then have "length (addrs st3) = nat (nAccounts fl)"
    "take (nat (nAccounts fl)) (addrs st3) =
       map (\<lambda>i. account_addr L (int i)) [0..<nat (nAccounts fl)]"
    by (simp_all add: I_def)
  then have "addrs st3 = map (\<lambda>i. account_addr L (int i)) [0..<nat (nAccounts fl)]"
    using take_all [of "addrs st3" "nat (nAccounts fl)"] by simp
  then show ?thesis by (simp add: st1)
qed

lemma phase_events_split:
  assumes "\<forall>e \<in> set pre. \<not> is_phase2_line e"
  shows "phase1_events (pre @ Print (MsgPhase2 m k) # post) = pre"
    and "phase2_events (pre @ Print (MsgPhase2 m k) # post) = post"
  using assms
  by (induction pre rule: phase1_events.induct) simp_all

lemma phase_events_none:
  assumes "\<forall>e \<in> set xs. \<not> is_phase2_line e"
  shows "phase1_events xs = xs" and "phase2_events xs = []"
  using assms
  by (induction xs rule: phase1_events.induct) simp_all

lemma phase1_event_not_phase2: "phase1_event L v fl e \<Longrightarrow> \<not> is_phase2_line e"
  by (auto simp: phase1_event_def creation_event_def commit_event_def)

lemma phase1_no_phase2_line:
  fixes st :: "('r, 's) vars"
  assumes "\<forall>e \<in> set (out st). \<not> is_phase2_line e"
  shows "\<forall>e \<in> set (out (last_vars (phase1 L S v fl st))). \<not> is_phase2_line e"
proof -
  from appended_allD [OF phase1_appended [of L v fl st S]] obtain es where
    es: "out (last_vars (phase1 L S v fl st)) = out st @ es"
    "\<forall>e \<in> set es. phase1_event L v fl e" by blast
  then show ?thesis using assms by (auto dest: phase1_event_not_phase2)
qed

lemma main_start_no_phase2_line: "\<forall>e \<in> set (out (main_start L fl s0)). \<not> is_phase2_line e"
  by (auto simp: main_start_def)

lemma phase2_line_first:
  fixes st :: "('r, 's) vars"
  shows "\<exists>rest. events_since st (last_vars (phase2 L S v fl now st)) =
           Print (MsgPhase2 (clamp_modify fl) (kCommit fl)) # rest \<and>
         out (last_vars (phase2 L S v fl now st)) =
           out st @ Print (MsgPhase2 (clamp_modify fl) (kCommit fl)) # rest"
proof -
  have p: "prefix (out (phase2_start L fl now st))
      (out (last_vars (for_loop 0 (nat (clamp_modify fl))
             (modify_account L S v fl (clamp_modify fl) (phase2_perm L fl now))
             (phase2_start L fl now st))))"
    by (rule for_loop_prefix) (rule modify_account_prefix)
  then obtain zs where zs: "out (last_vars (for_loop 0 (nat (clamp_modify fl))
             (modify_account L S v fl (clamp_modify fl) (phase2_perm L fl now))
             (phase2_start L fl now st))) =
      out st @ Print (MsgPhase2 (clamp_modify fl) (kCommit fl)) # zs"
    by (auto simp: prefix_def)
  then have "\<exists>rest. out (last_vars (phase2 L S v fl now st)) =
      out st @ Print (MsgPhase2 (clamp_modify fl) (kCommit fl)) # rest"
    by (auto simp: phase2_eq last_vars_def split: sum.splits prod.splits)
  then show ?thesis by (auto simp: events_since_def)
qed

lemma commit_revisions_append [simp]:
  "commit_revisions (xs @ ys) = commit_revisions xs @ commit_revisions ys"
  by (induction xs rule: commit_revisions.induct) simp_all

lemma main_phase_events:
  fixes st1 :: "('r, 's) vars"
  assumes op: "OpenStore S (dbPath fl) = Inr s0"
    and p1: "phase1 L S v fl (main_start L fl s0) = Inr st1"
  shows "phase1_events (trace (main L S v fl now)) = out st1"
    and "phase2_events (trace (main L S v fl now)) =
           tl (events_since st1 (last_vars (phase2 L S v fl now st1))) @
           (case phase2 L S v fl now st1 of
              Inl e \<Rightarrow> [CloseDB]
            | Inr st2 \<Rightarrow> [Print (MsgFinalReport (dbPath fl)), CloseDB])"
proof -
  have "\<forall>e \<in> set (out (last_vars (phase1 L S v fl (main_start L fl s0)))). \<not> is_phase2_line e"
    by (rule phase1_no_phase2_line) (rule main_start_no_phase2_line)
  then have n1: "\<forall>e \<in> set (out st1). \<not> is_phase2_line e"
    using p1 by simp
  obtain rest where rest:
    "events_since st1 (last_vars (phase2 L S v fl now st1)) =
       Print (MsgPhase2 (clamp_modify fl) (kCommit fl)) # rest"
    "out (last_vars (phase2 L S v fl now st1)) =
       out st1 @ Print (MsgPhase2 (clamp_modify fl) (kCommit fl)) # rest"
    using phase2_line_first [of st1 L S v fl now] by blast
  have tr: "trace (main L S v fl now) =
      out st1 @ Print (MsgPhase2 (clamp_modify fl) (kCommit fl)) #
        (rest @ (case phase2 L S v fl now st1 of
              Inl e \<Rightarrow> [CloseDB]
            | Inr st2 \<Rightarrow> [Print (MsgFinalReport (dbPath fl)), CloseDB]))"
    using op p1 rest(2)
    by (auto simp: main_eq finish_def last_vars_def split: sum.splits prod.splits)
  show "phase1_events (trace (main L S v fl now)) = out st1"
    unfolding tr by (rule phase_events_split(1) [OF n1])
  show "phase2_events (trace (main L S v fl now)) =
           tl (events_since st1 (last_vars (phase2 L S v fl now st1))) @
           (case phase2 L S v fl now st1 of
              Inl e \<Rightarrow> [CloseDB]
            | Inr st2 \<Rightarrow> [Print (MsgFinalReport (dbPath fl)), CloseDB])"
    unfolding tr rest(1) using phase_events_split(2) [OF n1] by simp
qed

lemma main_phase1_stopped:
  fixes t :: "('r, 's) vars"
  assumes op: "OpenStore S (dbPath fl) = Inr s0"
    and p1: "phase1 L S v fl (main_start L fl s0) = Inl (f, t)"
  shows "main L S v fl now = finish (Some f) t"
  using assms by (simp add: main_eq)

lemma commit_revisions_bound:
  assumes "\<forall>e \<in> set xs. \<forall>revision res. e = StateCommit revision res \<longrightarrow> P revision"
  shows "\<forall>r \<in> set (commit_revisions xs). P r"
  using assms
  by (induction xs rule: commit_revisions.induct) simp_all

lemma phase1_event_low:
  assumes k: "1 \<le> kCommit fl" and n: "nAccounts fl \<le> 1000000 * kCommit fl"
    and n63: "nAccounts fl \<le> 2 ^ 63"
    and e: "phase1_event L v fl (StateCommit revision res)"
  shows "revision < 1000000"
proof -
  from e obtain i where i: "i < nat (nAccounts fl)" "revision = revision1 (int i) (kCommit fl)"
    by (auto simp: phase1_event_def creation_event_def commit_event_def)
  have i63: "int i < 2 ^ 63" using i(1) n63 by simp
  have "int i < 1000000 * kCommit fl" using i(1) n by simp
  moreover have "kCommit fl * (int i div kCommit fl) \<le> int i"
    using k mult_div_mod_eq [of "kCommit fl" "int i"] pos_mod_sign [of "kCommit fl" "int i"]
    by linarith
  ultimately have "kCommit fl * (int i div kCommit fl) < kCommit fl * 1000000"
    by linarith
  then have "int i div kCommit fl < 1000000"
    using k by (simp add: mult_less_cancel_left_pos)
  then show ?thesis using i(2) revision1_pos [OF k i63] by simp
qed

lemma phase2_event_high:
  assumes k: "1 \<le> kCommit fl" and n63: "nAccounts fl \<le> 2 ^ 63"
    and e: "phase2_event L v fl now as (StateCommit revision res)"
  shows "1000000 \<le> revision"
proof -
  from e obtain i where i: "i < nat (clamp_modify fl)" "revision = revision2 (int i) (kCommit fl)"
    by (auto simp: phase2_event_def modification_event_def commit_event_def)
  have "clamp_modify fl \<le> nAccounts fl" by (simp add: clamp_modify_def)
  then have i63: "int i < 2 ^ 63" using i(1) n63 by simp
  have "0 \<le> int i div kCommit fl" using k by (simp add: pos_imp_zdiv_nonneg_iff)
  then show ?thesis using i(2) revision2_pos [OF k i63] by simp
qed

lemma test_open [simp]: "OpenStore (test_store f) p = Inr 0"
  by (simp add: test_store_def)

lemma test_run_finishes:
  assumes "0 < nSlots fl" "nSlots fl < 2 ^ 62" "kCommit fl \<noteq> 0" "0 \<le> nAccounts fl"
  obtains st1 st2 where
    "phase1 test_lib (test_store 0) v fl (main_start test_lib fl 0) = Inr st1"
    "phase2 test_lib (test_store 0) v fl now st1 = Inr st2"
proof -
  have "0 < wrap_int64 (nSlots fl * 2)" using assms(1,2) by (simp add: wrap_int64_id)
  from phase1_finishes [OF test_store_never_fails this assms(3,4),
      of test_lib v "main_start test_lib fl 0"]
  obtain st1 where st1: "phase1 test_lib (test_store 0) v fl (main_start test_lib fl 0) = Inr st1"
    "length (addrs st1) = nat (nAccounts fl)" by blast
  from test_phase2_finishes [OF assms(1,3) st1(2), of v now]
  obtain st2 where "phase2 test_lib (test_store 0) v fl now st1 = Inr st2" by blast
  with st1(1) show thesis by (rule that)
qed

lemma main_start_no_commits [simp]: "commit_revisions (out (main_start L fl s0)) = []"
  by (simp add: main_start_def)

lemma phase1_revision_member:
  fixes st0 :: "('r, 's) vars"
  assumes k: "1 \<le> kCommit fl" and n: "nAccounts fl \<le> 2 ^ 63"
    and run: "phase1 L S v fl st0 = Inr st1"
    and i: "i < nat (nAccounts fl)"
    and b: "(int i + 1) mod kCommit fl = 0 \<or> int i + 1 = nAccounts fl"
  shows "int i div kCommit fl \<in> set (commit_revisions (events_since st0 st1))"
proof -
  have "commit_revisions (events_since st0 st1) =
      map snd (commits_after is_SetNonce 0 (events_since st0 st1))"
    by (rule commit_revisions_eq)
  also have "\<dots> = map (\<lambda>i. int i div kCommit fl)
       (filter (\<lambda>i. (int i + 1) mod kCommit fl = 0 \<or> int i + 1 = nAccounts fl)
          [0..<nat (nAccounts fl)])"
    unfolding phase1_commits [OF k n run] by (simp add: o_def)
  finally show ?thesis using i b by (auto simp: image_iff)
qed

lemma phase2_revision_member:
  fixes st0 :: "('r, 's) vars"
  assumes k: "1 \<le> kCommit fl" and n: "nAccounts fl \<le> 2 ^ 63"
    and run: "phase2 L S v fl now st0 = Inr st1"
    and i: "i < nat (clamp_modify fl)"
    and b: "(int i + 1) mod kCommit fl = 0 \<or> int i + 1 = clamp_modify fl"
  shows "int i div kCommit fl + 1000000 \<in> set (commit_revisions (events_since st0 st1))"
proof -
  have "commit_revisions (events_since st0 st1) =
      map snd (commits_after is_SetState 0 (events_since st0 st1))"
    by (rule commit_revisions_eq)
  also have "\<dots> = map (\<lambda>i. int i div kCommit fl + 1000000)
       (filter (\<lambda>i. (int i + 1) mod kCommit fl = 0 \<or> int i + 1 = clamp_modify fl)
          [0..<nat (clamp_modify fl)])"
    unfolding phase2_commits [OF k n run] by (simp add: o_def)
  finally show ?thesis using i b by (auto simp: image_iff)
qed

lemma phase1_zero_slots:
  fixes st :: "('r, 's) vars"
  assumes s: "nSlots fl = 0" and n: "1 \<le> nAccounts fl"
  shows "\<exists>t. phase1 L S v fl st = Inl (Panicked ''invalid argument to Intn'', t) \<and>
     out t = out st @ [Print (MsgPhase1 (nAccounts fl) (nSlots fl) (kCommit fl)),
                       SetBalance (account_addr L 0) (10 ^ 18),
                       SetNonce (account_addr L 0) 0] \<and>
     currentRoot t = currentRoot st"
proof -
  have np: "\<not> 0 < wrap_int64 (nSlots fl * 2)" using s by (simp add: wrap_int64_def)
  from create_account_Intn_panic [OF np, of L S v 0 "phase1_start L fl st"]
  obtain t where t:
    "create_account L S v fl 0 (phase1_start L fl st) =
       Inl (Panicked ''invalid argument to Intn'', t)"
    "out t = out (phase1_start L fl st) @
       [SetBalance (account_addr L (int 0)) (10 ^ 18),
        SetNonce (account_addr L (int 0)) (uint64 (int 0))]"
    "currentRoot t = currentRoot (phase1_start L fl st)"
    by blast
  have "0 < nat (nAccounts fl)" using n by simp
  then have "for_loop 0 (nat (nAccounts fl)) (create_account L S v fl) (phase1_start L fl st) =
      Inl (Panicked ''invalid argument to Intn'', t)"
    using t(1) by (simp add: for_loop_step)
  then have "phase1 L S v fl st = Inl (Panicked ''invalid argument to Intn'', t)"
    using n by (simp add: phase1_eq)
  with t(2,3) show ?thesis by (simp add: uint64_def)
qed

lemma phase1_no_accounts:
  fixes st :: "('r, 's) vars"
  assumes n: "nAccounts fl = 0"
  shows "\<exists>t. phase1 L S v fl st = Inr t \<and>
     out t = out st @ Print (MsgPhase1 (nAccounts fl) (nSlots fl) (kCommit fl)) #
               phase1_end v (phase1_start L fl st) \<and>
     currentRoot t = currentRoot st"
  using n by (simp add: phase1_eq for_loop_done phase1_end_def)

lemma phase2_zero_slots:
  fixes st :: "('r, 's) vars"
  assumes s: "nSlots fl = 0" and m: "1 \<le> clamp_modify fl"
    and p: "0 < length (phase2_perm L fl now)" "0 \<le> phase2_perm L fl now ! 0"
      "nat (phase2_perm L fl now ! 0) < length (addrs st)"
  shows "\<exists>t. phase2 L S v fl now st = Inl (Panicked ''invalid argument to Intn'', t) \<and>
     out t = out st @ [Print (MsgPhase2 (clamp_modify fl) (kCommit fl))]"
proof -
  have le: "nSlots fl \<le> 0" using s by simp
  have "modify_account L S v fl (clamp_modify fl) (phase2_perm L fl now) 0
          (phase2_start L fl now st) =
        Inl (Panicked ''invalid argument to Intn'', count_slot v (phase2_start L fl now st))"
    using p modify_slots_panic [OF le, where L = L and S = S and v = v
        and accountIdx = "phase2_perm L fl now ! 0"
        and addr = "addrs st ! nat (phase2_perm L fl now ! 0)"
        and st = "phase2_start L fl now st"]
    by (simp add: modify_account_def Let_def)
  moreover have "0 < nat (clamp_modify fl)" using m by simp
  ultimately have "for_loop 0 (nat (clamp_modify fl))
      (modify_account L S v fl (clamp_modify fl) (phase2_perm L fl now))
      (phase2_start L fl now st) =
      Inl (Panicked ''invalid argument to Intn'', count_slot v (phase2_start L fl now st))"
    by (simp add: for_loop_step)
  then show ?thesis by (simp add: phase2_eq)
qed

lemma phase2_no_accounts:
  fixes st :: "('r, 's) vars"
  assumes "clamp_modify fl \<le> 0"
  shows "\<exists>t. phase2 L S v fl now st = Inr t \<and>
     out t = out st @ Print (MsgPhase2 (clamp_modify fl) (kCommit fl)) #
               phase2_end v (phase2_start L fl now st)"
  using assms by (simp add: phase2_eq for_loop_done phase2_end_def)

lemma phase_end_no_mutation [simp]:
  "filter is_mutation (phase1_end v st) = []" "filter is_mutation (phase2_end v st) = []"
  by (simp_all add: phase1_end_def phase2_end_def split: backend.splits)

lemma main_start_no_mutation [simp]: "filter is_mutation (out (main_start L fl s0)) = []"
  by (simp add: main_start_def)

lemma main_no_accounts:
  fixes L :: "'r lib" and S :: "'s store"
  assumes op: "OpenStore S (dbPath fl) = Inr s0" and n: "nAccounts fl = 0"
  shows "stopped (main L S v fl now) = None \<and> filter is_mutation (trace (main L S v fl now)) = []"
proof -
  obtain t where t: "phase1 L S v fl (main_start L fl s0) = Inr t"
    "out t = out (main_start L fl s0) @
       Print (MsgPhase1 (nAccounts fl) (nSlots fl) (kCommit fl)) #
       phase1_end v (phase1_start L fl (main_start L fl s0))"
    using phase1_no_accounts [OF n, of L S v "main_start L fl s0"] by blast
  have "clamp_modify fl \<le> 0" using n by (simp add: clamp_modify_def)
  from phase2_no_accounts [OF this, of L S v now t]
  obtain u where u: "phase2 L S v fl now t = Inr u"
    "out u = out t @ Print (MsgPhase2 (clamp_modify fl) (kCommit fl)) #
               phase2_end v (phase2_start L fl now t)" by blast
  show ?thesis using op t u by (simp add: main_eq finish_def)
qed

lemma main_zero_slots:
  fixes L :: "'r lib" and S :: "'s store"
  assumes s: "nSlots fl = 0" and op: "OpenStore S (dbPath fl) = Inr s0"
    and n: "1 \<le> nAccounts fl"
  shows "stopped (main L S v fl now) = Some (Panicked ''invalid argument to Intn'')"
    and "trace (main L S v fl now) =
       out (main_start L fl s0) @
       [Print (MsgPhase1 (nAccounts fl) (nSlots fl) (kCommit fl)),
        SetBalance (account_addr L 0) (10 ^ 18), SetNonce (account_addr L 0) 0, CloseDB]"
proof -
  obtain t where t:
    "phase1 L S v fl (main_start L fl s0) = Inl (Panicked ''invalid argument to Intn'', t)"
    "out t = out (main_start L fl s0) @
       [Print (MsgPhase1 (nAccounts fl) (nSlots fl) (kCommit fl)),
        SetBalance (account_addr L 0) (10 ^ 18), SetNonce (account_addr L 0) 0]"
    using phase1_zero_slots [OF s n, of L S v "main_start L fl s0"] by blast
  show "stopped (main L S v fl now) = Some (Panicked ''invalid argument to Intn'')"
    using op t by (simp add: main_eq finish_def)
  show "trace (main L S v fl now) =
       out (main_start L fl s0) @
       [Print (MsgPhase1 (nAccounts fl) (nSlots fl) (kCommit fl)),
        SetBalance (account_addr L 0) (10 ^ 18), SetNonce (account_addr L 0) 0, CloseDB]"
    using op t by (simp add: main_eq finish_def)
qed

lemma main_phase1_fault_no_phase2:
  fixes L :: "'r lib" and S :: "'s store"
  assumes "\<And>s0 st1. OpenStore S (dbPath fl) = Inr s0 \<Longrightarrow>
     phase1 L S v fl (main_start L fl s0) \<noteq> Inr st1"
  shows "filter is_phase2_line (trace (main L S v fl now)) = []"
proof (cases "OpenStore S (dbPath fl)")
  case (Inl err)
  then show ?thesis by (auto simp: main_eq)
next
  case (Inr s0)
  have np: "\<forall>e \<in> set (out (last_vars (phase1 L S v fl (main_start L fl s0)))).
      \<not> is_phase2_line e"
    by (rule phase1_no_phase2_line) (rule main_start_no_phase2_line)
  show ?thesis
  proof (cases "phase1 L S v fl (main_start L fl s0)")
    case (Inl e)
    obtain f t where "e = (f, t)" by (cases e)
    with Inl Inr np show ?thesis by (simp add: main_eq finish_def filter_empty_conv)
  next
    case st1: (Inr st1)
    with assms [OF Inr, of st1] show ?thesis by blast
  qed
qed




text \<open>
  C6. If a commit of the state or of the trie answers an error, in either phase, the run
  stops by \<^verbatim>\<open>return\<close>: the trace ends with the failed commit, the line that reports its
  error and the deferred close of the database, so nothing is retried or rolled back and
  no further batch is processed; no earlier commit had failed; the final report is not
  printed; and \<^verbatim>\<open>currentRoot\<close> is the root of the last boundary whose two commits both
  succeeded (the zero hash when there is none).
\<close>

theorem commit_failure_aborts:
  fixes L :: "'r lib" and S :: "'s store"
  assumes "\<exists>e \<in> set (trace (main L S v fl now)). failed_commit e"
  shows "stopped (main L S v fl now) = Some Returned \<and>
         (\<exists>pre e m. trace (main L S v fl now) = pre @ [e, Print m, CloseDB] \<and>
            failed_commit e \<and> reports e m \<and>
            (\<forall>x \<in> set pre. \<not> failed_commit x) \<and>
            head_root (main L S v fl now) = last_root zeroHash pre) \<and>
         (\<forall>x \<in> set (trace (main L S v fl now)). \<not> is_final_report x)"
proof -
  have fin: "\<And>f (t :: ('r, 's) vars). stopped_well (f, t) \<Longrightarrow>
      \<exists>e \<in> set (trace (finish (Some f) t)). failed_commit e \<Longrightarrow>
      stopped (finish (Some f) t) = Some Returned \<and>
      (\<exists>pre e m. trace (finish (Some f) t) = pre @ [e, Print m, CloseDB] \<and>
         failed_commit e \<and> reports e m \<and>
         (\<forall>x \<in> set pre. \<not> failed_commit x) \<and>
         head_root (finish (Some f) t) = last_root zeroHash pre) \<and>
      (\<forall>x \<in> set (trace (finish (Some f) t)). \<not> is_final_report x)"
  proof -
    fix f and t :: "('r, 's) vars"
    assume w: "stopped_well (f, t)"
      and h: "\<exists>e \<in> set (trace (finish (Some f) t)). failed_commit e"
    show "stopped (finish (Some f) t) = Some Returned \<and>
      (\<exists>pre e m. trace (finish (Some f) t) = pre @ [e, Print m, CloseDB] \<and>
         failed_commit e \<and> reports e m \<and>
         (\<forall>x \<in> set pre. \<not> failed_commit x) \<and>
         head_root (finish (Some f) t) = last_root zeroHash pre) \<and>
      (\<forall>x \<in> set (trace (finish (Some f) t)). \<not> is_final_report x)"
    proof (cases f)
      case (Panicked p)
      with w have "good t" by (simp add: stopped_well_def)
      with h show ?thesis by (auto simp: good_def finish_def)
    next
      case Returned
      with w obtain pre e m where p: "out t = pre @ [e, Print m]" "failed_commit e"
        "reports e m" "\<forall>x \<in> set pre. \<not> failed_commit x \<and> \<not> is_final_report x"
        "currentRoot t = last_root zeroHash pre"
        by (auto simp: stopped_well_def)
      have "\<not> is_final_report e" using p(2) by (cases e rule: failed_commit.cases) simp_all
      moreover have "\<not> is_final_report (Print m)"
        using p(2,3) by (cases e rule: failed_commit.cases) auto
      ultimately have "\<forall>x \<in> set (trace (finish (Some f) t)). \<not> is_final_report x"
        using p(1,4) by (auto simp: finish_def)
      moreover have "trace (finish (Some f) t) = pre @ [e, Print m, CloseDB]"
        using p(1) by (simp add: finish_def)
      ultimately show ?thesis using Returned p by (auto simp: finish_def)
    qed
  qed
  show ?thesis
  proof (cases "OpenStore S (dbPath fl)")
    case (Inl err)
    with assms show ?thesis by (auto simp: main_eq split: if_splits)
  next
    case (Inr s0)
    have p1: "case phase1 L S v fl (main_start L fl s0) of
        Inl e \<Rightarrow> stopped_well e | Inr t' \<Rightarrow> good t'"
      by (rule phase1_good) (rule main_start_good)
    show ?thesis
    proof (cases "phase1 L S v fl (main_start L fl s0)")
      case (Inl e)
      obtain f t where e: "e = (f, t)" by (cases e)
      from p1 Inl e have "stopped_well (f, t)" by simp
      from fin [OF this] assms Inr Inl e show ?thesis by (simp add: main_eq)
    next
      case st1: (Inr st1)
      with p1 have g1: "good st1" by simp
      have p2: "case phase2 L S v fl now st1 of
          Inl e \<Rightarrow> stopped_well e | Inr t' \<Rightarrow> good t'"
        by (rule phase2_good) (rule g1)
      show ?thesis
      proof (cases "phase2 L S v fl now st1")
        case (Inl e)
        obtain f t where e: "e = (f, t)" by (cases e)
        from p2 Inl e have "stopped_well (f, t)" by simp
        from fin [OF this] assms Inr st1 Inl e show ?thesis by (simp add: main_eq)
      next
        case (Inr st2)
        with p2 have "good st2" by simp
        then have "\<not> (\<exists>e \<in> set (trace (main L S v fl now)). failed_commit e)"
          using \<open>OpenStore S (dbPath fl) = Inr s0\<close> st1 Inr
          by (auto simp: main_eq finish_def good_def)
        with assms show ?thesis by simp
      qed
    qed
  qed
qed

theorem commit_failure_aborts_witness:
  "(\<exists>e \<in> set (trace (main test_lib (test_store 3) Pebble (test_flags 3 1 1 1) 7)).
      failed_commit e) \<and>
   stopped (main test_lib (test_store 3) Pebble (test_flags 3 1 1 1) 7) = Some Returned \<and>
   head_root (main test_lib (test_store 3) Pebble (test_flags 3 1 1 1) 7) = test_root 2 \<and>
   (\<exists>pre e m. trace (main test_lib (test_store 3) Pebble (test_flags 3 1 1 1) 7) =
        pre @ [e, Print m, CloseDB] \<and>
      failed_commit e \<and> reports e m \<and> filter failed_commit pre = [] \<and>
      head_root (main test_lib (test_store 3) Pebble (test_flags 3 1 1 1) 7) =
        last_root zeroHash pre) \<and>
   filter is_final_report (trace (main test_lib (test_store 3) Pebble (test_flags 3 1 1 1) 7)) = []"
proof -
  have h: "\<exists>e \<in> set (trace (main test_lib (test_store 3) Pebble (test_flags 3 1 1 1) 7)).
      failed_commit e"
    by code_simp
  have r: "head_root (main test_lib (test_store 3) Pebble (test_flags 3 1 1 1) 7) = test_root 2"
    by code_simp
  from commit_failure_aborts [OF h] h r show ?thesis
    unfolding filter_empty_conv by blast
qed

text \<open>
  C1, as stated, fails: the offset of phase 2 is the constant 1000000, and phase 1 reaches
  that revision once it has more than 1000000 batches. In the run with \<open>n = 1000001\<close>,
  \<open>k = 1\<close> and \<open>m = 1\<close> the revision 1000000 is passed to \<^verbatim>\<open>statedb.Commit\<close> in phase 1 (after
  account 1000000) and again in phase 2 (after the first modified account).
\<close>

theorem revision_collision:
  "1000000 \<in> set (commit_revisions (phase1_events
      (trace (main test_lib (test_store 0) Pebble (test_flags 1000001 1 1 1) 7)))) \<and>
   1000000 \<in> set (commit_revisions (phase2_events
      (trace (main test_lib (test_store 0) Pebble (test_flags 1000001 1 1 1) 7))))"
proof -
  let ?fl = "test_flags 1000001 1 1 1"
  let ?ms = "main_start test_lib ?fl (0::nat)"
  have fl: "nAccounts ?fl = 1000001" "kCommit ?fl = 1" "nSlots ?fl = 1" "mModify ?fl = 1"
    "dbPath ?fl = ''mpt_bench_db''"
    by (simp_all add: test_flags_def)
  obtain st1 st2 where st1: "phase1 test_lib (test_store 0) Pebble ?fl (?ms) = Inr st1"
    and st2: "phase2 test_lib (test_store 0) Pebble ?fl 7 st1 = Inr st2"
    by (rule test_run_finishes [of ?fl Pebble 7]) (simp_all add: fl)
  have k: "1 \<le> kCommit ?fl" and n: "nAccounts ?fl \<le> 2 ^ 63" by (simp_all add: fl)
  have op: "OpenStore (test_store 0) (dbPath ?fl) = Inr 0" by simp
  have i1: "(1000000::nat) < nat (nAccounts ?fl)" by (simp add: fl)
  have b1: "(int 1000000 + 1) mod kCommit ?fl = 0 \<or> int 1000000 + 1 = nAccounts ?fl"
    by (simp add: fl)
  have "int 1000000 div kCommit ?fl \<in>
      set (commit_revisions (events_since (?ms) st1))"
    by (rule phase1_revision_member [OF k n st1 i1 b1])
  then have r1: "1000000 \<in>
      set (commit_revisions (events_since (?ms) st1))"
    by (simp add: fl)
  have i2: "(0::nat) < nat (clamp_modify ?fl)" by (simp add: fl clamp_modify_def)
  have b2: "(int 0 + 1) mod kCommit ?fl = 0 \<or> int 0 + 1 = clamp_modify ?fl"
    by (simp add: fl)
  have "int 0 div kCommit ?fl + 1000000 \<in> set (commit_revisions (events_since st1 st2))"
    by (rule phase2_revision_member [OF k n st2 i2 b2])
  then have r2: "1000000 \<in> set (commit_revisions (events_since st1 st2))"
    by (simp add: fl)
  have "prefix (out (?ms)) (out st1)"
    using phase1_prefix [of "?ms" test_lib "test_store 0" Pebble ?fl]
      st1
    by simp
  then have "out st1 =
      out (?ms) @ events_since (?ms) st1"
    by (rule events_since_prefix)
  then have "commit_revisions (out st1) =
      commit_revisions (events_since (?ms) st1)"
    by simp
  then have m1: "1000000 \<in> set (commit_revisions (phase1_events
      (trace (main test_lib (test_store 0) Pebble ?fl 7))))"
    using main_phase_events(1) [OF op st1, of 7] r1 by simp
  obtain rest where rest:
    "events_since st1 st2 = Print (MsgPhase2 (clamp_modify ?fl) (kCommit ?fl)) # rest"
    using phase2_line_first [of st1 test_lib "test_store 0" Pebble ?fl 7] st2 by auto
  have m2: "1000000 \<in> set (commit_revisions (phase2_events
      (trace (main test_lib (test_store 0) Pebble ?fl 7))))"
    using main_phase_events(2) [OF op st1, of 7] st2 r2 rest by simp
  from m1 m2 show ?thesis by (rule conjI)
qed

text \<open>
  C1, amended. For a batch size \<open>k \<ge> 1\<close> and \<open>n \<le> 1000000 * k\<close> accounts (\<open>n\<close> an \<^verbatim>\<open>int\<close>
  of Go), no revision number passed to \<^verbatim>\<open>statedb.Commit\<close> in phase 1 is passed to it in
  phase 2, however the run ends: the first are \<open>i div k < 1000000\<close>, the second
  \<open>i div k + 1000000\<close>.
\<close>

theorem revisions_disjoint:
  fixes L :: "'r lib" and S :: "'s store"
  assumes k: "1 \<le> kCommit fl" and n: "nAccounts fl \<le> 1000000 * kCommit fl"
    and n63: "nAccounts fl \<le> 2 ^ 63"
  shows "set (commit_revisions (phase1_events (trace (main L S v fl now)))) \<inter>
         set (commit_revisions (phase2_events (trace (main L S v fl now)))) = {}"
proof (cases "OpenStore S (dbPath fl)")
  case (Inl err)
  have "\<forall>e \<in> set (trace (main L S v fl now)). \<not> is_phase2_line e"
    using Inl by (auto simp: main_eq)
  from phase_events_none(2) [OF this] show ?thesis by simp
next
  case (Inr s0)
  show ?thesis
  proof (cases "phase1 L S v fl (main_start L fl s0)")
    case (Inl e)
    obtain f t where e: "e = (f, t)" by (cases e)
    have "\<forall>e \<in> set (out (last_vars (phase1 L S v fl (main_start L fl s0)))). \<not> is_phase2_line e"
      by (rule phase1_no_phase2_line) (rule main_start_no_phase2_line)
    then have "\<forall>e \<in> set (trace (main L S v fl now)). \<not> is_phase2_line e"
      using Inr Inl e by (auto simp: main_eq finish_def)
    from phase_events_none(2) [OF this] show ?thesis by simp
  next
    case st1: (Inr st1)
    from appended_allD [OF phase1_appended [of L v fl "main_start L fl s0" S]] st1
    obtain es where es: "out st1 = out (main_start L fl s0) @ es"
      "\<forall>e \<in> set es. phase1_event L v fl e" by auto
    have "\<forall>e \<in> set es. \<forall>revision res. e = StateCommit revision res \<longrightarrow> revision < 1000000"
      using es(2) phase1_event_low [OF k n n63] by blast
    from commit_revisions_bound [OF this]
    have low: "\<forall>r \<in> set (commit_revisions (out st1)). r < 1000000"
      by (simp add: es(1))
    from appended_allD [OF phase2_appended [of L v fl now st1 S]]
    obtain fs where fs: "out (last_vars (phase2 L S v fl now st1)) = out st1 @ fs"
      "\<forall>e \<in> set fs. phase2_event L v fl now (addrs st1) e" by auto
    have "\<forall>e \<in> set fs. \<forall>revision res. e = StateCommit revision res \<longrightarrow> 1000000 \<le> revision"
      using fs(2) phase2_event_high [OF k n63] by blast
    from commit_revisions_bound [OF this]
    have "\<forall>r \<in> set (commit_revisions fs). 1000000 \<le> r" .
    moreover have "events_since st1 (last_vars (phase2 L S v fl now st1)) = fs"
      using fs(1) by (simp add: events_since_def)
    moreover have "set (commit_revisions (tl fs)) \<subseteq> set (commit_revisions fs)"
      by (cases fs rule: commit_revisions.cases) auto
    ultimately have high: "\<forall>r \<in> set (commit_revisions (phase2_events (trace (main L S v fl now)))).
        1000000 \<le> r"
      using main_phase_events(2) [OF Inr st1, of now]
      by (auto split: sum.splits)
    from low high main_phase_events(1) [OF Inr st1, of now] show ?thesis by fastforce
  qed
qed

theorem revisions_disjoint_witness:
  "1 \<le> kCommit (test_flags 237 1000 10 50) \<and>
   nAccounts (test_flags 237 1000 10 50) \<le> 1000000 * kCommit (test_flags 237 1000 10 50) \<and>
   nAccounts (test_flags 237 1000 10 50) \<le> 2 ^ 63 \<and>
   set (commit_revisions (phase1_events
        (trace (main test_lib (test_store 0) Pebble (test_flags 237 1000 10 50) 7)))) \<inter>
   set (commit_revisions (phase2_events
        (trace (main test_lib (test_store 0) Pebble (test_flags 237 1000 10 50) 7)))) = {}"
proof -
  have h: "1 \<le> kCommit (test_flags 237 1000 10 50)"
    "nAccounts (test_flags 237 1000 10 50) \<le> 1000000 * kCommit (test_flags 237 1000 10 50)"
    "nAccounts (test_flags 237 1000 10 50) \<le> 2 ^ 63"
    by (simp_all add: test_flags_def)
  from revisions_disjoint [OF h, of test_lib "test_store 0" Pebble 7] h show ?thesis by blast
qed

text \<open>
  C3, as stated, fails: with \<^verbatim>\<open>-slots 0\<close> (and the other flags at their defaults) the
  run does not proceed: it panics in \<^verbatim>\<open>r.Intn(0)\<close>, and neither a slot mutation nor a
  commit has been made.
\<close>

theorem zero_slots_panics:
  "stopped (main test_lib (test_store 0) Pebble (test_flags 100 0 10 50) 7) =
     Some (Panicked ''invalid argument to Intn'') \<and>
   filter is_SetState (trace (main test_lib (test_store 0) Pebble (test_flags 100 0 10 50) 7)) = [] \<and>
   commit_revisions (trace (main test_lib (test_store 0) Pebble (test_flags 100 0 10 50) 7)) = []"
  by code_simp

text \<open>
  C3, amended. With the average-slots parameter 0 and a store that opens, phase 1
  produces no slot mutation, but for another reason than the claim gives: with at
  least one account the run panics at the slot-count draw \<^verbatim>\<open>Intn(0)\<close> of account 0, after
  the balance and the nonce of that account are set and before any commit; only with no
  account at all does the run proceed to its end, and then it makes no mutation.
\<close>

theorem zero_slots_phase1:
  fixes L :: "'r lib" and S :: "'s store"
  assumes "nSlots fl = 0" and "OpenStore S (dbPath fl) = Inr s0"
  shows "(1 \<le> nAccounts fl \<longrightarrow>
            stopped (main L S v fl now) = Some (Panicked ''invalid argument to Intn'') \<and>
            trace (main L S v fl now) =
              out (main_start L fl s0) @
              [Print (MsgPhase1 (nAccounts fl) (nSlots fl) (kCommit fl)),
               SetBalance (account_addr L 0) (10 ^ 18), SetNonce (account_addr L 0) 0,
               CloseDB]) \<and>
         (nAccounts fl = 0 \<longrightarrow>
            stopped (main L S v fl now) = None \<and>
            filter is_mutation (trace (main L S v fl now)) = [])"
  using main_zero_slots [OF assms, of L v now] main_no_accounts [OF assms(2), of L v now]
  by blast

theorem zero_slots_phase1_witness:
  "nSlots (test_flags 100 0 10 50) = 0 \<and>
   OpenStore (test_store 0) (dbPath (test_flags 100 0 10 50)) = Inr 0 \<and>
   stopped (main test_lib (test_store 0) Pebble (test_flags 100 0 10 50) 7) =
     Some (Panicked ''invalid argument to Intn'') \<and>
   trace (main test_lib (test_store 0) Pebble (test_flags 100 0 10 50) 7) =
     out (main_start test_lib (test_flags 100 0 10 50) (0::nat)) @
     [Print (MsgPhase1 100 0 50),
      SetBalance (account_addr test_lib 0) (10 ^ 18), SetNonce (account_addr test_lib 0) 0,
      CloseDB] \<and>
   stopped (main test_lib (test_store 0) Pebble (test_flags 0 0 10 50) 7) = None \<and>
   filter is_mutation (trace (main test_lib (test_store 0) Pebble (test_flags 0 0 10 50) 7)) = []"
proof -
  have a: "nSlots (test_flags 100 0 10 50) = 0"
    "OpenStore (test_store 0) (dbPath (test_flags 100 0 10 50)) = Inr 0"
    "1 \<le> nAccounts (test_flags 100 0 10 50)"
    by (simp_all add: test_flags_def)
  have b: "nSlots (test_flags 0 0 10 50) = 0"
    "OpenStore (test_store 0) (dbPath (test_flags 0 0 10 50)) = Inr 0"
    "nAccounts (test_flags 0 0 10 50) = 0"
    by (simp_all add: test_flags_def)
  have c: "nAccounts (test_flags 100 0 10 50) = 100" "kCommit (test_flags 100 0 10 50) = 50"
    by (simp_all add: test_flags_def)
  from zero_slots_phase1 [OF a(1,2), of test_lib Pebble 7] a(3)
  have 1: "stopped (main test_lib (test_store 0) Pebble (test_flags 100 0 10 50) 7) =
      Some (Panicked ''invalid argument to Intn'')"
    "trace (main test_lib (test_store 0) Pebble (test_flags 100 0 10 50) 7) =
     out (main_start test_lib (test_flags 100 0 10 50) (0::nat)) @
     [Print (MsgPhase1 100 0 50),
      SetBalance (account_addr test_lib 0) (10 ^ 18), SetNonce (account_addr test_lib 0) 0,
      CloseDB]"
    by (simp_all add: a(1) c)
  from zero_slots_phase1 [OF b(1,2), of test_lib Pebble 7] b(3)
  have 2: "stopped (main test_lib (test_store 0) Pebble (test_flags 0 0 10 50) 7) = None"
    "filter is_mutation (trace (main test_lib (test_store 0) Pebble (test_flags 0 0 10 50) 7)) = []"
    by simp_all
  from a(1,2) 1 2 show ?thesis by simp
qed

text \<open>
  C10, as stated, fails: with \<^verbatim>\<open>-slots 0\<close> and \<open>m \<ge> 1\<close> no run panics in phase 2. With at
  least one account the panic is the one of phase 1, and the line that announces phase 2
  is never printed; with no account \<open>m\<close> is clamped to 0 and the run ends without a panic.
\<close>

theorem phase2_panic_not_reached:
  "stopped (main test_lib (test_store 0) Pebble (test_flags 100 0 10 50) 7) =
     Some (Panicked ''invalid argument to Intn'') \<and>
   filter is_phase2_line
     (trace (main test_lib (test_store 0) Pebble (test_flags 100 0 10 50) 7)) = [] \<and>
   stopped (main test_lib (test_store 0) Pebble (test_flags 0 0 10 50) 7) = None"
  by code_simp

text \<open>
  C10, amended. With the average-slots parameter 0, the loop of phase 2, wherever it is
  entered with \<open>m \<ge> 1\<close> (after the clamp) and a first permuted index that is an index of
  \<^verbatim>\<open>addrs\<close>, panics at its first slot-index draw \<^verbatim>\<open>Intn(0)\<close>, having printed its first line
  and made no mutation. A run of \<^verbatim>\<open>main\<close> does not get there: if it prints the line of
  phase 2 at all, it has no account, and it ends without a panic.
\<close>

theorem zero_slots_phase2:
  fixes L :: "'r lib" and S :: "'s store" and st :: "('r, 's) vars"
  assumes "nSlots fl = 0"
  shows "(1 \<le> clamp_modify fl \<and> 0 < length (phase2_perm L fl now) \<and>
          0 \<le> phase2_perm L fl now ! 0 \<and>
          nat (phase2_perm L fl now ! 0) < length (addrs st) \<longrightarrow>
            (\<exists>t. phase2 L S v fl now st = Inl (Panicked ''invalid argument to Intn'', t) \<and>
                 out t = out st @ [Print (MsgPhase2 (clamp_modify fl) (kCommit fl))])) \<and>
         (filter is_phase2_line (trace (main L S v fl now)) \<noteq> [] \<longrightarrow>
            nAccounts fl = 0 \<and> stopped (main L S v fl now) = None)"
proof -
  have 1: "1 \<le> clamp_modify fl \<and> 0 < length (phase2_perm L fl now) \<and>
          0 \<le> phase2_perm L fl now ! 0 \<and>
          nat (phase2_perm L fl now ! 0) < length (addrs st) \<longrightarrow>
            (\<exists>t. phase2 L S v fl now st = Inl (Panicked ''invalid argument to Intn'', t) \<and>
                 out t = out st @ [Print (MsgPhase2 (clamp_modify fl) (kCommit fl))])"
    using phase2_zero_slots [OF assms, of L now st S v] by blast
  have 2: "nAccounts fl = 0 \<and> stopped (main L S v fl now) = None"
    if r: "filter is_phase2_line (trace (main L S v fl now)) \<noteq> []"
  proof -
    have "\<exists>s0 st1. OpenStore S (dbPath fl) = Inr s0 \<and>
        phase1 L S v fl (main_start L fl s0) = Inr st1"
      using main_phase1_fault_no_phase2 [of S fl L v now] r by blast
    then obtain s0 st1 where op: "OpenStore S (dbPath fl) = Inr s0"
      and p1: "phase1 L S v fl (main_start L fl s0) = Inr st1" by blast
    have n0: "\<not> nAccounts fl < 0" using p1 by (auto simp: phase1_eq split: if_splits)
    have "\<not> 1 \<le> nAccounts fl"
      using phase1_zero_slots [OF assms, of L S v "main_start L fl s0"] p1 by auto
    with n0 have n: "nAccounts fl = 0" by simp
    with main_no_accounts [OF op n, of L v now] show ?thesis by simp
  qed
  from 1 2 show ?thesis by blast
qed

theorem zero_slots_phase2_witness:
  "nSlots (test_flags 1 0 1 1) = 0 \<and> 1 \<le> clamp_modify (test_flags 1 0 1 1) \<and>
   0 < length (phase2_perm test_lib (test_flags 1 0 1 1) 7) \<and>
   0 \<le> phase2_perm test_lib (test_flags 1 0 1 1) 7 ! 0 \<and>
   nat (phase2_perm test_lib (test_flags 1 0 1 1) 7 ! 0) <
     length (addrs (test_vars\<lparr>addrs := [zeroAddress]\<rparr>)) \<and>
   (\<exists>t. phase2 test_lib (test_store 0) Pebble (test_flags 1 0 1 1) 7
           (test_vars\<lparr>addrs := [zeroAddress]\<rparr>) =
         Inl (Panicked ''invalid argument to Intn'', t) \<and>
       out t = out (test_vars\<lparr>addrs := [zeroAddress]\<rparr>) @ [Print (MsgPhase2 1 1)]) \<and>
   nSlots (test_flags 0 0 10 50) = 0 \<and>
   filter is_phase2_line
     (trace (main test_lib (test_store 0) Pebble (test_flags 0 0 10 50) 7)) =
     [Print (MsgPhase2 0 50)] \<and>
   stopped (main test_lib (test_store 0) Pebble (test_flags 0 0 10 50) 7) = None"
proof -
  have a: "nSlots (test_flags 1 0 1 1) = 0" "1 \<le> clamp_modify (test_flags 1 0 1 1)"
    "0 < length (phase2_perm test_lib (test_flags 1 0 1 1) 7)"
    "0 \<le> phase2_perm test_lib (test_flags 1 0 1 1) 7 ! 0"
    "nat (phase2_perm test_lib (test_flags 1 0 1 1) 7 ! 0) <
       length (addrs (test_vars\<lparr>addrs := [zeroAddress]\<rparr>))"
    "clamp_modify (test_flags 1 0 1 1) = 1" "kCommit (test_flags 1 0 1 1) = 1"
    by (simp_all add: test_flags_def clamp_modify_def test_perm)
  have b: "nSlots (test_flags 0 0 10 50) = 0" by (simp add: test_flags_def)
  have c: "filter is_phase2_line
     (trace (main test_lib (test_store 0) Pebble (test_flags 0 0 10 50) 7)) =
     [Print (MsgPhase2 0 50)]"
    by code_simp
  then have c': "filter is_phase2_line
     (trace (main test_lib (test_store 0) Pebble (test_flags 0 0 10 50) 7)) \<noteq> []"
    by simp
  from zero_slots_phase2 [OF a(1), of test_lib 7 "test_vars\<lparr>addrs := [zeroAddress]\<rparr>"
      "test_store 0" Pebble] a
  have 1: "\<exists>t. phase2 test_lib (test_store 0) Pebble (test_flags 1 0 1 1) 7
           (test_vars\<lparr>addrs := [zeroAddress]\<rparr>) =
         Inl (Panicked ''invalid argument to Intn'', t) \<and>
       out t = out (test_vars\<lparr>addrs := [zeroAddress]\<rparr>) @ [Print (MsgPhase2 1 1)]"
    by simp
  from zero_slots_phase2 [OF b, of test_lib 7 test_vars "test_store 0" Pebble] c'
  have 2: "stopped (main test_lib (test_store 0) Pebble (test_flags 0 0 10 50) 7) = None"
    by blast
  from a(1-5) 1 b c 2 show ?thesis by blast
qed

end
